theory Spec2Isabelle
  imports Main
begin

section \<open>Synonym group consolidation (synonymsWithDatamuse.py, group_synonyms)\<close>

text \<open>
  The development embeds \<open>group_synonyms\<close> of \<open>synonymsWithDatamuse.py\<close>.

  Text is a \<open>string\<close>; a character stands for the Unicode code point of the same number,
  so the model covers text whose code points are below 256. A word is a \<open>string\<close>, a
  line of the working list \<open>synonymsByLine\<close> is a \<open>string list\<close>.

  The directory of synonym files is a map from file names to the text of the file, as
  Python's text layer presents it (line ends already translated to the newline
  character).
\<close>

subsection \<open>Errors\<close>

text \<open>
  \<open>FileNotFoundError\<close>: \<open>open\<close> finds no file of that name.
  \<open>UnsupportedFormatError\<close>: the exception raised for a name ending neither in
  \<open>.csv\<close> nor in \<open>.tsv\<close>.
  \<open>InternalConsistencyError\<close>: the exception at the end of \<open>substitute_synonyms\<close>.
\<close>

datatype error = FileNotFoundError | UnsupportedFormatError | InternalConsistencyError

subsection \<open>The string methods the function calls\<close>

text \<open>\<open>str.isspace\<close> on one code point below 256.\<close>

definition isspace :: "char \<Rightarrow> bool" where
  "isspace c = (of_char c \<in> {9, 10, 11, 12, 13, 28, 29, 30, 31, 32, 133, 160 :: nat})"

text \<open>\<open>str.strip()\<close>: white space removed at both ends.\<close>

definition strip :: "string \<Rightarrow> string" where
  "strip s = rev (dropWhile isspace (rev (dropWhile isspace s)))"

text \<open>
  \<open>str.lower()\<close> on code points below 256: the letters A to Z and the capital letters
  of the range 192 to 222 (215, the multiplication sign, apart) move up by 32.
\<close>

definition lower_char :: "char \<Rightarrow> char" where
  "lower_char c =
     (let n = (of_char c :: nat)
      in if (65 \<le> n \<and> n \<le> 90) \<or> (192 \<le> n \<and> n \<le> 222 \<and> n \<noteq> 215)
         then char_of (n + 32) else c)"

definition lower :: "string \<Rightarrow> string" where
  "lower s = map lower_char s"

text \<open>\<open>str.split(separator)\<close> for a separator of one character.\<close>

fun split :: "char \<Rightarrow> string \<Rightarrow> string list" where
  "split sep [] = [[]]"
| "split sep (c # cs) =
     (if c = sep then [] # split sep cs
      else (c # hd (split sep cs)) # tl (split sep cs))"

text \<open>\<open>separator.join(line)\<close>.\<close>

fun join :: "char \<Rightarrow> string list \<Rightarrow> string" where
  "join sep [] = []"
| "join sep [w] = w"
| "join sep (w # ws) = w @ sep # join sep ws"

text \<open>\<open>str.endswith\<close>.\<close>

definition endswith :: "string \<Rightarrow> string \<Rightarrow> bool" where
  "endswith s suffix = (length suffix \<le> length s \<and> drop (length s - length suffix) s = suffix)"

text \<open>
  \<open>file.readlines()\<close>: the text cut after every newline character, each line keeping
  its newline; a last line without one is kept as it is.
\<close>

fun readlines :: "string \<Rightarrow> string list" where
  "readlines [] = []"
| "readlines (c # cs) =
     (if c = CHR 0x0A then [c] # readlines cs
      else (case readlines cs of [] \<Rightarrow> [[c]] | l # ls \<Rightarrow> (c # l) # ls))"

text \<open>\<open>COMMENT_CHARS\<close>, the prefix of a comment line for the rest of the script.\<close>

definition COMMENT_CHARS :: string where
  "COMMENT_CHARS = ''//''"

text \<open>\<open>str.startswith\<close>.\<close>

definition startswith :: "string \<Rightarrow> string \<Rightarrow> bool" where
  "startswith s prefix = (take (length prefix) s = prefix)"

subsection \<open>The working state of one pass\<close>

text \<open>
  \<open>list(set(line))\<close> lists the distinct words of a line in the iteration order of a
  Python set of strings. That order depends on the hash values of the strings, which
  change from one interpreter process to the next; the model takes the function as a
  parameter \<open>ord\<close> and assumes of it only what every set gives.
\<close>

definition set_order :: "(string list \<Rightarrow> string list) \<Rightarrow> bool" where
  "set_order ord = (\<forall>xs. distinct (ord xs) \<and> set (ord xs) = set xs)"

record pass_state =
  synonymsByLine :: "string list list"
  index :: nat
  processedSynonyms :: "string set"
  changes :: bool

text \<open>\<open>synonymsByLine.pop(i)\<close>.\<close>

definition pop :: "nat \<Rightarrow> 'a list \<Rightarrow> 'a list" where
  "pop i xs = take i xs @ drop (Suc i) xs"

text \<open>
  The search of \<open>substitute_synonyms\<close>: the index of the first line that contains the
  word, counted from \<open>k\<close>.
\<close>

fun first_line_with :: "string \<Rightarrow> string list list \<Rightarrow> nat \<Rightarrow> nat option" where
  "first_line_with w [] k = None"
| "first_line_with w (l # ls) k = (if w \<in> set l then Some k else first_line_with w ls (Suc k))"

text \<open>
  \<open>substitute_synonyms\<close> works on the list \<open>synonymsByLine\<close> of the enclosing
  function, which is passed and returned here: the group is appended to the first line
  that holds the word, then the line at the given index is emptied; when no line holds
  the word, the exception is raised.
\<close>

definition substitute_synonyms ::
  "string \<Rightarrow> string list \<Rightarrow> nat \<Rightarrow> string list list \<Rightarrow> error + string list list" where
  "substitute_synonyms synonym_to_be_substituted synonyms_to_group index_of_synonyms_to_group ls =
     (case first_line_with synonym_to_be_substituted ls 0 of
        None \<Rightarrow> Inl InternalConsistencyError
      | Some i \<Rightarrow>
          Inr ((ls[i := ls ! i @ synonyms_to_group])[index_of_synonyms_to_group := []]))"

text \<open>
  The inner loop \<open>for synonym in line\<close>: it stops at the first word that is already
  processed and returns it; the words before it have been added to the processed set.
\<close>

fun scan :: "string list \<Rightarrow> string set \<Rightarrow> string option \<times> string set" where
  "scan [] P = (None, P)"
| "scan (w # ws) P = (if w \<in> P then (Some w, P) else scan ws (insert w P))"

text \<open>
  The body of \<open>for i, line in enumerate(synonymsByLine)\<close> at index \<open>index st\<close>, which
  is below the length of the list. The list iterator moves to the next index whatever
  the body did to the list, so after a \<open>pop\<close> the line that slid into place \<open>i\<close> is
  not visited in this pass.
\<close>

definition loop_body :: "(string list \<Rightarrow> string list) \<Rightarrow> pass_state \<Rightarrow> error + pass_state" where
  "loop_body ord st =
     (let ls = synonymsByLine st; i = index st; line = ls ! i
      in if length line < 2
         then Inr (st\<lparr>synonymsByLine := pop i ls, index := Suc i, changes := True\<rparr>)
         else
           let line' = ord line;
               ch = (changes st \<or> length line' \<noteq> length line);
               ls1 = ls[i := line']
           in (case scan line' (processedSynonyms st) of
                 (None, P) \<Rightarrow>
                   Inr \<lparr>synonymsByLine = ls1, index = Suc i, processedSynonyms = P, changes = ch\<rparr>
               | (Some synonym, P) \<Rightarrow>
                   (case substitute_synonyms synonym line' i ls1 of
                      Inl e \<Rightarrow> Inl e
                    | Inr ls2 \<Rightarrow>
                        Inr \<lparr>synonymsByLine = ls2, index = Suc i,
                             processedSynonyms = P \<union> set line', changes = True\<rparr>)))"

text \<open>The \<open>for\<close> loop: the body at every index the iterator reaches.\<close>

function for_loop :: "(string list \<Rightarrow> string list) \<Rightarrow> pass_state \<Rightarrow> error + pass_state" where
  "for_loop ord st =
     (if index st < length (synonymsByLine st)
      then (case loop_body ord st of Inl e \<Rightarrow> Inl e | Inr st' \<Rightarrow> for_loop ord st')
      else Inr st)"
  by pat_completeness auto
termination
  by (relation "measure (\<lambda>(ord, st). length (synonymsByLine st) - index st)")
     (auto simp: loop_body_def Let_def pop_def substitute_synonyms_def
           split: if_splits prod.splits option.splits sum.splits)

declare for_loop.simps [simp del]

text \<open>One turn of \<open>while changes\<close>: the new list and the flag.\<close>

definition one_pass ::
  "(string list \<Rightarrow> string list) \<Rightarrow> string list list \<Rightarrow> error + string list list \<times> bool" where
  "one_pass ord ls =
     (case for_loop ord \<lparr>synonymsByLine = ls, index = 0, processedSynonyms = {}, changes = False\<rparr> of
        Inl e \<Rightarrow> Inl e
      | Inr st \<Rightarrow> Inr (synonymsByLine st, changes st))"

text \<open>
  \<open>while changes\<close>: passes are repeated as long as the last one reported a change.
  For an arbitrary \<open>ord\<close> nothing bounds the number of passes, so the loop is a
  partial function: \<open>None\<close> stands for a loop that never ends.
\<close>

partial_function (option) merge_loop ::
  "(string list \<Rightarrow> string list) \<Rightarrow> string list list \<Rightarrow> (error + string list list) option" where
  "merge_loop ord ls =
     (case one_pass ord ls of
        Inl e \<Rightarrow> Some (Inl e)
      | Inr (ls', ch) \<Rightarrow> if ch then merge_loop ord ls' else Some (Inr ls'))"

declare merge_loop.simps [code]


subsection \<open>Reading, parsing and writing the file\<close>

text \<open>
  The separator chosen from the file name: a comma for \<open>.csv\<close>, a tab for \<open>.tsv\<close>,
  none for any other name.
\<close>

definition separator_of :: "string \<Rightarrow> char option" where
  "separator_of filename =
     (if endswith filename ''.csv'' then Some (CHR '','')
      else if endswith filename ''.tsv'' then Some (CHR 0x09)
      else None)"

text \<open>\<open>list(map(lambda line: line.strip().lower().split(separator), lines))\<close>.\<close>

definition parse_lines :: "char \<Rightarrow> string list \<Rightarrow> string list list" where
  "parse_lines separator lines = map (\<lambda>line. split separator (lower (strip line))) lines"

text \<open>The text written back: every line joined by the separator and ended by a newline.\<close>

definition write_lines :: "char \<Rightarrow> string list list \<Rightarrow> string" where
  "write_lines separator ls = concat (map (\<lambda>line. join separator line @ [CHR 0x0A]) ls)"

text \<open>
  \<open>group_synonyms(filename)\<close> on the directory \<open>files\<close>. The file is opened and read
  first, then the name is checked, then the lines are parsed and merged, and at the end
  the file is written. An exception leaves the directory as it was.
\<close>

definition group_synonyms ::
  "(string list \<Rightarrow> string list) \<Rightarrow> string \<Rightarrow> (string \<rightharpoonup> string) \<Rightarrow>
     (error + (string \<rightharpoonup> string)) option" where
  "group_synonyms ord filename files =
     (case files filename of
        None \<Rightarrow> Some (Inl FileNotFoundError)
      | Some text \<Rightarrow>
          (let lines = readlines text
           in case separator_of filename of
                None \<Rightarrow> Some (Inl UnsupportedFormatError)
              | Some separator \<Rightarrow>
                  (case merge_loop ord (parse_lines separator lines) of
                     None \<Rightarrow> None
                   | Some (Inl e) \<Rightarrow> Some (Inl e)
                   | Some (Inr ls) \<Rightarrow> Some (Inr (files(filename \<mapsto> write_lines separator ls))))))"

section \<open>Notions used to state the properties\<close>

text \<open>The state in which a pass starts.\<close>

definition initial :: "string list list \<Rightarrow> pass_state" where
  "initial ls = \<lparr>synonymsByLine = ls, index = 0, processedSynonyms = {}, changes = False\<rparr>"

text \<open>
  The states the loops go through on the list \<open>ls\<close>: the start of the first pass, the
  state after each turn of the \<open>for\<close> loop, and the start of the next pass when a pass
  ended with the flag set.
\<close>

inductive reachable ::
  "(string list \<Rightarrow> string list) \<Rightarrow> string list list \<Rightarrow> pass_state \<Rightarrow> bool"
  for ord :: "string list \<Rightarrow> string list" and ls :: "string list list" where
  start: "reachable ord ls (initial ls)"
| turn: "reachable ord ls st \<Longrightarrow> index st < length (synonymsByLine st) \<Longrightarrow>
         loop_body ord st = Inr st' \<Longrightarrow> reachable ord ls st'"
| again: "reachable ord ls st \<Longrightarrow> \<not> index st < length (synonymsByLine st) \<Longrightarrow>
          changes st \<Longrightarrow> reachable ord ls (initial (synonymsByLine st))"

text \<open>The list after \<open>n\<close> passes that all reported a change.\<close>

fun after_passes ::
  "(string list \<Rightarrow> string list) \<Rightarrow> nat \<Rightarrow> string list list \<Rightarrow> string list list option" where
  "after_passes ord 0 ls = Some ls"
| "after_passes ord (Suc n) ls =
     (case one_pass ord ls of
        Inl e \<Rightarrow> None
      | Inr (ls', ch) \<Rightarrow> if ch then after_passes ord n ls' else None)"

text \<open>
  Two words are chained by the lines \<open>ls\<close> when there are lines \<open>L0, ..., Ln\<close> of
  \<open>ls\<close> with the first word in \<open>L0\<close>, the second in \<open>Ln\<close>, and a common word in
  every two consecutive lines.
\<close>

inductive chained :: "string list list \<Rightarrow> string \<Rightarrow> string \<Rightarrow> bool"
  for ls :: "string list list" where
  same_line: "l \<in> set ls \<Longrightarrow> a \<in> set l \<Longrightarrow> b \<in> set l \<Longrightarrow> chained ls a b"
| next_line: "chained ls a c \<Longrightarrow> l \<in> set ls \<Longrightarrow> c \<in> set l \<Longrightarrow> b \<in> set l \<Longrightarrow> chained ls a b"

text \<open>The pairs of different words that share a line.\<close>

definition edges :: "string list list \<Rightarrow> (string \<times> string) set" where
  "edges ls = {(a, b). a \<noteq> b \<and> (\<exists>l\<in>set ls. a \<in> set l \<and> b \<in> set l)}"

text \<open>
  A list of lines is partitioned when no line repeats a word, every line has two words
  or more, and no two lines share a word.
\<close>

definition partitioned :: "string list list \<Rightarrow> bool" where
  "partitioned ls =
     ((\<forall>l\<in>set ls. distinct l \<and> 2 \<le> length l) \<and>
      (\<forall>i<length ls. \<forall>j<length ls. i \<noteq> j \<longrightarrow> set (ls ! i) \<inter> set (ls ! j) = {}))"

text \<open>
  The measure that bounds the passes: the words of all lines, plus one for every line,
  plus one for every line that is not empty.
\<close>

definition line_weight :: "string list \<Rightarrow> nat" where
  "line_weight l = length l + (if l = [] then 1 else 2)"

definition weight :: "string list list \<Rightarrow> nat" where
  "weight ls = sum_list (map line_weight ls)"

text \<open>
  The size of the tokens of a list of lines: the characters of all tokens, plus one for
  every token.
\<close>

definition tokens_size :: "string list list \<Rightarrow> nat" where
  "tokens_size ls = sum_list (map (\<lambda>w. length w + 1) (concat ls))"

subsection \<open>Invariants of the loops\<close>

text \<open>Invariants of the \<open>for\<close> loop.\<close>

definition processed_located :: "pass_state \<Rightarrow> bool" where
  "processed_located st =
     (\<forall>w\<in>processedSynonyms st.
        \<exists>k<index st. k < length (synonymsByLine st) \<and> w \<in> set (synonymsByLine st ! k))"

definition weight_inv :: "nat \<Rightarrow> pass_state \<Rightarrow> bool" where
  "weight_inv n st =
     (weight (synonymsByLine st) \<le> n \<and> (changes st \<longrightarrow> weight (synonymsByLine st) < n))"

definition clean_prefix :: "pass_state \<Rightarrow> bool" where
  "clean_prefix st =
     (\<not> changes st \<longrightarrow>
        index st \<le> length (synonymsByLine st) \<and>
        (\<forall>k<index st. distinct (synonymsByLine st ! k) \<and> 2 \<le> length (synonymsByLine st ! k) \<and>
                       set (synonymsByLine st ! k) \<subseteq> processedSynonyms st) \<and>
        (\<forall>k<index st. \<forall>m<index st. k \<noteq> m \<longrightarrow>
            set (synonymsByLine st ! k) \<inter> set (synonymsByLine st ! m) = {}))"

text \<open>
  The state of a pass over a partitioned list \<open>ls\<close> at index \<open>index st\<close>: no change
  so far, the lines before the index put in the order of \<open>ord\<close>, the others untouched.
\<close>

definition settled :: "(string list \<Rightarrow> string list) \<Rightarrow> string list list \<Rightarrow> pass_state \<Rightarrow> bool" where
  "settled ord ls st =
     (\<not> changes st \<and> index st \<le> length ls \<and>
      synonymsByLine st = map ord (take (index st) ls) @ drop (index st) ls \<and>
      processedSynonyms st = \<Union> (set ` set (take (index st) ls)))"

subsection \<open>Files used as examples\<close>

text \<open>A file of three lines, two of which share the word \<open>feline\<close>.\<close>

definition example_text :: string where
  "example_text = ''cat,feline\<newline>dog,canine\<newline>feline,animal\<newline>''"

text \<open>Two equal lines.\<close>

definition duplicate_text :: string where
  "duplicate_text = ''big,large\<newline>big,large\<newline>''"

text \<open>A line of one word, a line of two words, and a line that repeats one word.\<close>

definition lonely_text :: string where
  "lonely_text = ''lonely\<newline>big,large\<newline>solo,solo\<newline>''"

text \<open>
  A file with two comment lines: the first has capital letters, a repeated token and a
  blank at its end, the last has one token.
\<close>

definition comment_text :: string where
  "comment_text = ''//Cat,FELINE,//CAT \<newline>Feline,Animal\<newline>//ToDo\<newline>''"

text \<open>A file that is not a synonym table.\<close>

definition notes_files :: "string \<rightharpoonup> string" where
  "notes_files = [''notes.txt'' \<mapsto> ''big,large\<newline>'']"

text \<open>A file of four lines on which the order of set iteration decides where lines merge.\<close>

definition order_text :: string where
  "order_text = ''p,p\<newline>x,y\<newline>q,r\<newline>p,q\<newline>''"

text \<open>A line whose middle token has blanks on both sides and whose first token is repeated.\<close>

definition padded_text :: string where
  "padded_text = ''a, x ,a\<newline>''"

section \<open>Reading and writing lines\<close>

lemma of_char_bound: "(of_char c :: nat) < 256"
proof -
  have "(of_char c :: nat) = of_char (char_of (of_char c :: nat))" by simp
  also have "\<dots> = (of_char c :: nat) mod 256" by (simp only: of_char_of)
  finally have "(of_char c :: nat) = of_char c mod 256" .
  then show ?thesis by (metis mod_less_divisor zero_less_numeral)
qed

lemma lower_char_idem: "lower_char (lower_char c) = lower_char c"
proof -
  define n where "n = (of_char c :: nat)"
  show ?thesis
  proof (cases "(65 \<le> n \<and> n \<le> 90) \<or> (192 \<le> n \<and> n \<le> 222 \<and> n \<noteq> 215)")
    case True
    then have l: "lower_char c = char_of (n + 32)" by (simp add: lower_char_def Let_def n_def[symmetric])
    have "(of_char (char_of (n + 32)) :: nat) = n + 32" using True by (auto simp: of_char_of)
    then show ?thesis unfolding l using True by (auto simp: lower_char_def Let_def)
  next
    case False
    then have "lower_char c = c" by (auto simp: lower_char_def Let_def n_def[symmetric])
    then show ?thesis by simp
  qed
qed

lemma lower_char_newline: "lower_char c = CHR 0x0A \<longleftrightarrow> c = CHR 0x0A"
proof
  assume a: "lower_char c = CHR 0x0A"
  define n where "n = (of_char c :: nat)"
  show "c = CHR 0x0A"
  proof (cases "(65 \<le> n \<and> n \<le> 90) \<or> (192 \<le> n \<and> n \<le> 222 \<and> n \<noteq> 215)")
    case True
    then have l: "lower_char c = char_of (n + 32)" by (simp add: lower_char_def Let_def n_def[symmetric])
    have "(of_char (char_of (n + 32)) :: nat) = n + 32" using True by (auto simp: of_char_of)
    with a l have "n + 32 = (of_char (CHR 0x0A) :: nat)" by simp
    then show ?thesis using True by simp
  next
    case False
    then have "lower_char c = c" by (auto simp: lower_char_def Let_def n_def[symmetric])
    with a show ?thesis by simp
  qed
next
  assume "c = CHR 0x0A" then show "lower_char c = CHR 0x0A" by (simp add: lower_char_def Let_def)
qed

lemma lower_fixed: "(\<forall>c\<in>set s. lower_char c = c) \<Longrightarrow> lower s = s"
  by (simp add: lower_def map_idI)

lemma isspace_newline: "isspace (CHR 0x0A)"
  by (simp add: isspace_def)

lemma strip_newline: "strip (s @ [CHR 0x0A]) = strip s"
proof (cases "\<forall>c\<in>set s. isspace c")
  case True
  then have 1: "dropWhile isspace s = []" and 2: "dropWhile isspace (s @ [CHR 0x0A]) = []"
    by (simp_all add: isspace_newline dropWhile_eq_Nil_conv)
  show ?thesis unfolding strip_def 1 2 by simp
next
  case False
  then have "dropWhile isspace (s @ [CHR 0x0A]) = dropWhile isspace s @ [CHR 0x0A]"
    by (simp add: dropWhile_append)
  then show ?thesis by (simp add: strip_def isspace_newline)
qed

lemma set_strip: "set (strip s) \<subseteq> set s"
proof -
  have "set (strip s) = set (dropWhile isspace (rev (dropWhile isspace s)))" by (simp add: strip_def)
  also have "\<dots> \<subseteq> set (rev (dropWhile isspace s))" by (rule set_dropWhileD[THEN subsetI]) 
  also have "\<dots> \<subseteq> set s" using set_dropWhileD[of _ isspace s] by auto
  finally show ?thesis .
qed

lemma split_nonempty: "split sep s \<noteq> []"
  by (induction s) auto

lemma split_no_sep: "w \<in> set (split sep s) \<Longrightarrow> sep \<notin> set w"
proof (induction s arbitrary: w)
  case Nil
  then show ?case by simp
next
  case (Cons c cs)
  obtain h t where ht: "split sep cs = h # t" using split_nonempty[of sep cs] by (cases "split sep cs") auto
  show ?case
  proof (cases "c = sep")
    case True
    with Cons.prems have "w = [] \<or> w \<in> set (split sep cs)" by auto
    with Cons.IH show ?thesis by auto
  next
    case False
    with Cons.prems ht have "w = c # h \<or> w \<in> set t" by auto
    moreover have "sep \<notin> set h" using Cons.IH[of h] ht by simp
    moreover have "\<And>x. x \<in> set t \<Longrightarrow> sep \<notin> set x" using Cons.IH ht by simp
    ultimately show ?thesis using False by auto
  qed
qed

lemma split_chars: "w \<in> set (split sep s) \<Longrightarrow> set w \<subseteq> set s"
proof (induction s arbitrary: w)
  case Nil
  then show ?case by simp
next
  case (Cons c cs)
  obtain h t where ht: "split sep cs = h # t" using split_nonempty[of sep cs] by (cases "split sep cs") auto
  show ?case
  proof (cases "c = sep")
    case True
    with Cons.prems have "w = [] \<or> w \<in> set (split sep cs)" by auto
    with Cons.IH show ?thesis by auto
  next
    case False
    with Cons.prems ht have "w = c # h \<or> w \<in> set t" by auto
    moreover have "set h \<subseteq> set cs" using Cons.IH[of h] ht by simp
    moreover have "\<And>x. x \<in> set t \<Longrightarrow> set x \<subseteq> set cs" using Cons.IH ht by simp
    ultimately show ?thesis by auto
  qed
qed

lemma split_plain: "sep \<notin> set w \<Longrightarrow> split sep w = [w]"
  by (induction w) auto

lemma split_append: "sep \<notin> set w \<Longrightarrow> split sep (w @ sep # r) = w # split sep r"
  by (induction w) auto

lemma split_join:
  "ws \<noteq> [] \<Longrightarrow> \<forall>w\<in>set ws. sep \<notin> set w \<Longrightarrow> split sep (join sep ws) = ws"
proof (induction sep ws rule: join.induct)
  case (1 sep)
  then show ?case by simp
next
  case (2 sep w)
  then show ?case by (simp add: split_plain)
next
  case (3 sep w v vs)
  then show ?case by (simp add: split_append)
qed

lemma set_join: "set (join sep ws) \<subseteq> insert sep (\<Union> (set ` set ws))"
  by (induction sep ws rule: join.induct) auto

lemma readlines_line:
  "CHR 0x0A \<notin> set l \<Longrightarrow> readlines (l @ CHR 0x0A # r) = (l @ [CHR 0x0A]) # readlines r"
  by (induction l) auto

lemma readlines_write_lines:
  assumes "\<forall>l\<in>set ls. CHR 0x0A \<notin> set (join sep l)"
  shows "readlines (write_lines sep ls) = map (\<lambda>l. join sep l @ [CHR 0x0A]) ls"
  using assms
proof (induction ls)
  case Nil
  then show ?case by (simp add: write_lines_def)
next
  case (Cons l ls)
  have "write_lines sep (l # ls) = join sep l @ CHR 0x0A # write_lines sep ls"
    by (simp add: write_lines_def)
  then show ?case using Cons by (simp add: readlines_line)
qed

lemma readlines_newline_last:
  "line \<in> set (readlines s) \<Longrightarrow> \<exists>body. CHR 0x0A \<notin> set body \<and> (line = body \<or> line = body @ [CHR 0x0A])"
proof (induction s arbitrary: line)
  case Nil
  then show ?case by simp
next
  case (Cons c cs)
  show ?case
  proof (cases "c = CHR 0x0A")
    case True
    with Cons.prems have "line = [CHR 0x0A] \<or> line \<in> set (readlines cs)" by auto
    then show ?thesis
    proof
      assume "line = [CHR 0x0A]"
      then show ?thesis by (intro exI[of _ "[]"]) simp
    next
      assume "line \<in> set (readlines cs)"
      then show ?thesis by (rule Cons.IH)
    qed
  next
    case False
    show ?thesis
    proof (cases "readlines cs")
      case Nil
      with Cons.prems False have "line = [c]" by simp
      then show ?thesis using False by (intro exI[of _ "[c]"]) simp
    next
      case (Cons h t)
      with Cons.prems False have "line = c # h \<or> line \<in> set t"
        using \<open>line \<in> set (readlines (c # cs))\<close> by auto
      then show ?thesis
      proof
        assume l: "line = c # h"
        from Cons.IH[of h] Cons obtain body where
          b: "CHR 0x0A \<notin> set body" "h = body \<or> h = body @ [CHR 0x0A]" by auto
        show ?thesis using b l False by (intro exI[of _ "c # body"]) auto
      next
        assume "line \<in> set t"
        then have "line \<in> set (readlines cs)" using Cons by simp
        then show ?thesis by (rule Cons.IH)
      qed
    qed
  qed
qed

lemma separator_of_cases:
  "separator_of filename = Some sep \<Longrightarrow> sep = CHR '','' \<or> sep = CHR 0x09"
  by (auto simp: separator_of_def split: if_splits)

lemma separator_fixed:
  assumes "separator_of filename = Some sep"
  shows "lower_char sep = sep \<and> sep \<noteq> CHR 0x0A"
  using separator_of_cases[OF assms] by (auto simp: lower_char_def Let_def)

lemma not_both_extensions: "\<not> (endswith filename ''.csv'' \<and> endswith filename ''.tsv'')"
  by (auto simp: endswith_def)

lemma parse_words:
  assumes "ws \<in> set (parse_lines sep (readlines contents))" "w \<in> set ws"
  shows "sep \<notin> set w \<and> CHR 0x0A \<notin> set w \<and> (\<forall>c\<in>set w. lower_char c = c)"
proof -
  from assms(1) obtain line where line: "line \<in> set (readlines contents)"
    "ws = split sep (lower (strip line))" by (auto simp: parse_lines_def)
  have win: "w \<in> set (split sep (lower (strip line)))" using assms(2) line(2) by simp
  have 1: "sep \<notin> set w" using win by (rule split_no_sep)
  have "set w \<subseteq> set (lower (strip line))" using win by (rule split_chars)
  then have sub: "set w \<subseteq> lower_char ` set (strip line)" by (simp add: lower_def)
  have 2: "\<forall>c\<in>set w. lower_char c = c"
  proof
    fix c assume "c \<in> set w"
    with sub obtain c' where "c = lower_char c'" by auto
    then show "lower_char c = c" by (simp only: lower_char_idem)
  qed
  from readlines_newline_last[OF line(1)] obtain body where
    b: "CHR 0x0A \<notin> set body" "line = body \<or> line = body @ [CHR 0x0A]" by auto
  from b(2) have "strip line = strip body"
  proof
    assume "line = body" then show ?thesis by simp
  next
    assume "line = body @ [CHR 0x0A]" then show ?thesis by (simp only: strip_newline)
  qed
  then have n: "CHR 0x0A \<notin> set (strip line)" using set_strip[of body] b(1) by auto
  have 3: "CHR 0x0A \<notin> set w"
  proof
    assume "CHR 0x0A \<in> set w"
    with sub obtain c' where c': "c' \<in> set (strip line)" "CHR 0x0A = lower_char c'" by auto
    from c'(2) have "lower_char c' = CHR 0x0A" by simp
    then have "c' = CHR 0x0A" by (simp only: lower_char_newline)
    with c'(1) n show False by simp
  qed
  from 1 2 3 show ?thesis by simp
qed

lemma parse_written:
  assumes ne: "\<forall>l\<in>set out. l \<noteq> []"
    and words: "\<forall>l\<in>set out. \<forall>w\<in>set l. sep \<notin> set w \<and> CHR 0x0A \<notin> set w \<and> (\<forall>c\<in>set w. lower_char c = c)"
    and sep: "lower_char sep = sep" "sep \<noteq> CHR 0x0A"
    and stable: "\<forall>l\<in>set out. strip (join sep l) = join sep l"
  shows "parse_lines sep (readlines (write_lines sep out)) = out"
proof -
  have chars: "\<And>l. l \<in> set out \<Longrightarrow> CHR 0x0A \<notin> set (join sep l) \<and> (\<forall>c\<in>set (join sep l). lower_char c = c)"
  proof -
    fix l assume l: "l \<in> set out"
    have s: "set (join sep l) \<subseteq> insert sep (\<Union> (set ` set l))" by (rule set_join)
    have a: "CHR 0x0A \<notin> insert sep (\<Union> (set ` set l))" using words l sep(2) by auto
    have b: "\<forall>c\<in>insert sep (\<Union> (set ` set l)). lower_char c = c" using words l sep(1) by auto
    from s a b show "CHR 0x0A \<notin> set (join sep l) \<and> (\<forall>c\<in>set (join sep l). lower_char c = c)"
      by blast
  qed
  have r: "readlines (write_lines sep out) = map (\<lambda>l. join sep l @ [CHR 0x0A]) out"
    using chars by (intro readlines_write_lines) simp
  have "\<And>l. l \<in> set out \<Longrightarrow> split sep (lower (strip (join sep l @ [CHR 0x0A]))) = l"
  proof -
    fix l assume l: "l \<in> set out"
    have "strip (join sep l @ [CHR 0x0A]) = join sep l" using stable l by (simp add: strip_newline)
    moreover have "lower (join sep l) = join sep l" using chars[OF l] by (simp add: lower_fixed)
    moreover have "split sep (join sep l) = l" using ne words l by (intro split_join) auto
    ultimately show "split sep (lower (strip (join sep l @ [CHR 0x0A]))) = l" by simp
  qed
  then show ?thesis unfolding r parse_lines_def by (simp add: map_idI)
qed

lemma startswith_comment:
  "startswith s COMMENT_CHARS \<longleftrightarrow> (\<exists>r. s = CHR ''/'' # CHR ''/'' # r)"
proof -
  have "take (Suc (Suc 0)) s = ''//'' \<longleftrightarrow> (\<exists>r. s = CHR ''/'' # CHR ''/'' # r)"
    by (cases s; cases "tl s") auto
  then show ?thesis by (simp add: startswith_def COMMENT_CHARS_def)
qed

lemma not_isspace_slash: "\<not> isspace (CHR ''/'')"
  by (simp add: isspace_def)

lemma strip_comment:
  assumes "startswith s COMMENT_CHARS" shows "startswith (strip s) COMMENT_CHARS"
proof -
  from assms obtain r where s: "s = CHR ''/'' # CHR ''/'' # r" by (auto simp: startswith_comment)
  have 1: "dropWhile isspace s = s" using s not_isspace_slash by simp
  have "rev s = rev r @ ''//''" using s by simp
  then have "\<exists>t. dropWhile isspace (rev s) = t @ ''//''"
    using not_isspace_slash by (auto simp: dropWhile_append)
  then obtain t where "dropWhile isspace (rev s) = t @ ''//''" by blast
  then have "strip s = CHR ''/'' # CHR ''/'' # rev t" by (simp add: strip_def 1)
  then show ?thesis by (simp add: startswith_comment)
qed

lemma lower_comment:
  assumes "startswith s COMMENT_CHARS" shows "startswith (lower s) COMMENT_CHARS"
proof -
  from assms obtain r where s: "s = CHR ''/'' # CHR ''/'' # r" by (auto simp: startswith_comment)
  have "lower_char (CHR ''/'') = CHR ''/''" by (simp add: lower_char_def)
  then show ?thesis unfolding s by (simp add: lower_def startswith_comment)
qed

lemma split_comment:
  assumes "startswith s COMMENT_CHARS" "sep \<noteq> CHR ''/''"
  shows "startswith (hd (split sep s)) COMMENT_CHARS"
proof -
  from assms obtain r where s: "s = CHR ''/'' # CHR ''/'' # r" by (auto simp: startswith_comment)
  show ?thesis unfolding s using assms(2) by (simp add: startswith_comment)
qed

lemma split_sizes: "length (concat (split sep s)) + length (split sep s) = length s + 1"
proof (induction s)
  case Nil
  show ?case by simp
next
  case (Cons c cs)
  obtain h t where ht: "split sep cs = h # t" using split_nonempty[of sep cs] by (cases "split sep cs") auto
  with Cons show ?case by auto
qed

lemma join_sizes: "l \<noteq> [] \<Longrightarrow> length (concat l) + length l = length (join sep l) + 1"
  by (induction sep l rule: join.induct) auto

lemma join_split: "join sep (split sep s) = s"
proof (induction s)
  case Nil
  show ?case by simp
next
  case (Cons c cs)
  obtain h t where ht: "split sep cs = h # t" using split_nonempty[of sep cs] by (cases "split sep cs") auto
  show ?case
  proof (cases "c = sep")
    case True
    with Cons ht show ?thesis by simp
  next
    case False
    with Cons ht show ?thesis by (cases t) auto
  qed
qed

lemma dropWhile_same_length: "length (dropWhile P xs) = length xs \<Longrightarrow> dropWhile P xs = xs"
proof -
  assume a: "length (dropWhile P xs) = length xs"
  have "length (takeWhile P xs) + length (dropWhile P xs) = length xs"
    by (metis length_append takeWhile_dropWhile_id)
  with a have "takeWhile P xs = []" by simp
  then show ?thesis by (metis append_Nil takeWhile_dropWhile_id)
qed

lemma length_strip: "length (strip s) \<le> length s"
proof -
  have "length (strip s) = length (dropWhile isspace (rev (dropWhile isspace s)))"
    by (simp add: strip_def)
  also have "\<dots> \<le> length (rev (dropWhile isspace s))" by (rule length_dropWhile_le)
  also have "\<dots> \<le> length s" by (simp add: length_dropWhile_le)
  finally show ?thesis .
qed

lemma strip_shorter: "strip s \<noteq> s \<Longrightarrow> length (strip s) < length s"
proof (rule ccontr)
  assume ne: "strip s \<noteq> s" and "\<not> length (strip s) < length s"
  with length_strip[of s] have e: "length (strip s) = length s" by simp
  have 1: "length (dropWhile isspace (rev (dropWhile isspace s))) \<le> length (dropWhile isspace s)"
    using length_dropWhile_le[of isspace "rev (dropWhile isspace s)"] by simp
  have 2: "length (dropWhile isspace s) \<le> length s" by (rule length_dropWhile_le)
  have 3: "length (dropWhile isspace (rev (dropWhile isspace s))) = length s"
    using e by (simp add: strip_def)
  from 1 2 3 have a: "length (dropWhile isspace s) = length s" by simp
  then have b: "dropWhile isspace s = s" by (rule dropWhile_same_length)
  from 3 b have "length (dropWhile isspace (rev s)) = length (rev s)" by simp
  then have "dropWhile isspace (rev s) = rev s" by (rule dropWhile_same_length)
  with b have "strip s = s" by (simp add: strip_def)
  with ne show False by simp
qed

lemma lower_positions:
  "length (lower s) = length s \<and>
   (\<forall>k<length s. (of_char (lower s ! k) :: nat) =
      (if (65 \<le> (of_char (s ! k) :: nat) \<and> (of_char (s ! k) :: nat) \<le> 90) \<or>
          (192 \<le> (of_char (s ! k) :: nat) \<and> (of_char (s ! k) :: nat) \<le> 222 \<and> (of_char (s ! k) :: nat) \<noteq> 215)
       then of_char (s ! k) + 32 else of_char (s ! k)))"
proof (intro conjI allI impI)
  show "length (lower s) = length s" by (simp add: lower_def)
  fix k assume k: "k < length s"
  define n where "n = (of_char (s ! k) :: nat)"
  have l: "lower s ! k = lower_char (s ! k)" using k by (simp add: lower_def)
  show "(of_char (lower s ! k) :: nat) =
      (if (65 \<le> (of_char (s ! k) :: nat) \<and> (of_char (s ! k) :: nat) \<le> 90) \<or>
          (192 \<le> (of_char (s ! k) :: nat) \<and> (of_char (s ! k) :: nat) \<le> 222 \<and> (of_char (s ! k) :: nat) \<noteq> 215)
       then of_char (s ! k) + 32 else of_char (s ! k))"
  proof (cases "(65 \<le> n \<and> n \<le> 90) \<or> (192 \<le> n \<and> n \<le> 222 \<and> n \<noteq> 215)")
    case True
    then have "lower_char (s ! k) = char_of (n + 32)"
      by (simp add: lower_char_def Let_def n_def[symmetric])
    moreover have "(of_char (char_of (n + 32)) :: nat) = n + 32" using True by (auto simp: of_char_of)
    ultimately show ?thesis using True unfolding l n_def[symmetric] by simp
  next
    case False
    then have "lower_char (s ! k) = s ! k" by (auto simp: lower_char_def Let_def n_def[symmetric])
    then show ?thesis using False unfolding l n_def[symmetric] by (simp add: n_def)
  qed
qed

lemma lower_no_capital:
  assumes "c \<in> set (lower s)"
  shows "\<not> (65 \<le> (of_char c :: nat) \<and> (of_char c :: nat) \<le> 90)"
proof -
  from assms obtain k where k: "k < length s" "c = lower s ! k"
    by (auto simp: in_set_conv_nth lower_def)
  from lower_positions[of s] k(1) have "(of_char (lower s ! k) :: nat) =
      (if (65 \<le> (of_char (s ! k) :: nat) \<and> (of_char (s ! k) :: nat) \<le> 90) \<or>
          (192 \<le> (of_char (s ! k) :: nat) \<and> (of_char (s ! k) :: nat) \<le> 222 \<and> (of_char (s ! k) :: nat) \<noteq> 215)
       then of_char (s ! k) + 32 else of_char (s ! k))" by blast
  then show ?thesis unfolding k(2) by (auto split: if_splits)
qed

text \<open>What the second run parses from the file the first run wrote.\<close>

lemma parse_of_written:
  assumes words: "\<forall>l\<in>set out. \<forall>w\<in>set l. sep \<notin> set w \<and> CHR 0x0A \<notin> set w \<and> (\<forall>c\<in>set w. lower_char c = c)"
    and sep: "lower_char sep = sep" "sep \<noteq> CHR 0x0A"
  shows "parse_lines sep (readlines (write_lines sep out)) = map (\<lambda>l. split sep (strip (join sep l))) out"
proof -
  have chars: "\<And>l. l \<in> set out \<Longrightarrow> CHR 0x0A \<notin> set (join sep l) \<and> (\<forall>c\<in>set (join sep l). lower_char c = c)"
  proof -
    fix l assume l: "l \<in> set out"
    have s: "set (join sep l) \<subseteq> insert sep (\<Union> (set ` set l))" by (rule set_join)
    have a: "CHR 0x0A \<notin> insert sep (\<Union> (set ` set l))" using words l sep(2) by auto
    have b: "\<forall>c\<in>insert sep (\<Union> (set ` set l)). lower_char c = c" using words l sep(1) by auto
    from s a b show "CHR 0x0A \<notin> set (join sep l) \<and> (\<forall>c\<in>set (join sep l). lower_char c = c)"
      by blast
  qed
  have r: "readlines (write_lines sep out) = map (\<lambda>l. join sep l @ [CHR 0x0A]) out"
    using chars by (intro readlines_write_lines) simp
  have "\<And>l. l \<in> set out \<Longrightarrow>
          split sep (lower (strip (join sep l @ [CHR 0x0A]))) = split sep (strip (join sep l))"
  proof -
    fix l assume l: "l \<in> set out"
    have "\<forall>c\<in>set (strip (join sep l)). lower_char c = c"
      using chars[OF l] set_strip[of "join sep l"] by blast
    then have "lower (strip (join sep l)) = strip (join sep l)" by (rule lower_fixed)
    then show "split sep (lower (strip (join sep l @ [CHR 0x0A]))) = split sep (strip (join sep l))"
      by (simp only: strip_newline)
  qed
  then show ?thesis unfolding r parse_lines_def by simp
qed

lemma write_lines_inj:
  assumes x: "\<forall>l\<in>set xs. l \<noteq> [] \<and> (\<forall>w\<in>set l. sep \<notin> set w \<and> CHR 0x0A \<notin> set w)"
    and y: "\<forall>l\<in>set ys. l \<noteq> [] \<and> (\<forall>w\<in>set l. sep \<notin> set w \<and> CHR 0x0A \<notin> set w)"
    and sep: "sep \<noteq> CHR 0x0A"
    and e: "write_lines sep xs = write_lines sep ys"
  shows "xs = ys"
proof -
  have nl: "\<And>zs l. \<forall>l\<in>set zs. l \<noteq> [] \<and> (\<forall>w\<in>set l. sep \<notin> set w \<and> CHR 0x0A \<notin> set w) \<Longrightarrow>
              l \<in> set zs \<Longrightarrow> CHR 0x0A \<notin> set (join sep l)"
  proof -
    fix zs :: "string list list" and l
    assume z: "\<forall>l\<in>set zs. l \<noteq> [] \<and> (\<forall>w\<in>set l. sep \<notin> set w \<and> CHR 0x0A \<notin> set w)" "l \<in> set zs"
    have "set (join sep l) \<subseteq> insert sep (\<Union> (set ` set l))" by (rule set_join)
    moreover have "CHR 0x0A \<notin> insert sep (\<Union> (set ` set l))" using z sep by auto
    ultimately show "CHR 0x0A \<notin> set (join sep l)" by blast
  qed
  let ?f = "\<lambda>l. join sep l @ [CHR 0x0A]"
  let ?g = "\<lambda>s. split sep (butlast s)"
  have rx: "readlines (write_lines sep xs) = map ?f xs" using nl[OF x] by (intro readlines_write_lines) simp
  have ry: "readlines (write_lines sep ys) = map ?f ys" using nl[OF y] by (intro readlines_write_lines) simp
  have m: "map ?f xs = map ?f ys" using rx ry e by simp
  have gx: "map ?g (map ?f xs) = xs" using x by (simp add: map_idI split_join)
  have gy: "map ?g (map ?f ys) = ys" using y by (simp add: map_idI split_join)
  from m gx gy show ?thesis by metis
qed

section \<open>The loops\<close>

subsection \<open>The inner scan and the search for the target line\<close>

lemma scan_None:
  "scan ws P = (None, P') \<Longrightarrow> P' = P \<union> set ws \<and> set ws \<inter> P = {}"
  by (induction ws arbitrary: P) (auto split: if_splits)

lemma scan_Some:
  "scan ws P = (Some w, P') \<Longrightarrow> distinct ws \<Longrightarrow> w \<in> set ws \<and> w \<in> P \<and> P \<subseteq> P' \<and> P' \<subseteq> P \<union> set ws"
proof (induction ws arbitrary: P)
  case Nil
  then show ?case by simp
next
  case (Cons x xs)
  show ?case
  proof (cases "x \<in> P")
    case True
    with Cons.prems show ?thesis by auto
  next
    case False
    with Cons.prems have s: "scan xs (insert x P) = (Some w, P')" and d: "distinct xs" and nx: "x \<notin> set xs"
      by auto
    from Cons.IH[OF s d] have "w \<in> set xs" "w \<in> insert x P" "insert x P \<subseteq> P'" "P' \<subseteq> insert x P \<union> set xs"
      by auto
    with nx show ?thesis by auto
  qed
qed

lemma first_line_with_None:
  "first_line_with w ls k = None \<longleftrightarrow> (\<forall>l\<in>set ls. w \<notin> set l)"
  by (induction ls arbitrary: k) auto

lemma first_line_with_Some:
  "first_line_with w ls k = Some j \<Longrightarrow>
     k \<le> j \<and> j - k < length ls \<and> w \<in> set (ls ! (j - k)) \<and> (\<forall>m<j - k. w \<notin> set (ls ! m))"
proof (induction ls arbitrary: k)
  case Nil
  then show ?case by simp
next
  case (Cons l ls)
  show ?case
  proof (cases "w \<in> set l")
    case True
    with Cons.prems show ?thesis by simp
  next
    case False
    with Cons.prems have "first_line_with w ls (Suc k) = Some j" by simp
    from Cons.IH[OF this] have a: "Suc k \<le> j" "j - Suc k < length ls" "w \<in> set (ls ! (j - Suc k))"
      "\<forall>m<j - Suc k. w \<notin> set (ls ! m)" by auto
    then obtain d where d: "j - k = Suc d" "j - Suc k = d" by (metis Suc_diff_Suc Suc_le_lessD)
    have "\<forall>m<Suc d. w \<notin> set ((l # ls) ! m)"
      using a(4) False d by (auto simp: nth_Cons split: nat.splits)
    with a d show ?thesis by auto
  qed
qed

lemma first_line_with_first:
  assumes "k < length ls" "w \<in> set (ls ! k)"
  shows "\<exists>j\<le>k. first_line_with w ls 0 = Some j \<and> w \<in> set (ls ! j) \<and> (\<forall>m<j. w \<notin> set (ls ! m))"
proof (cases "first_line_with w ls 0")
  case None
  with assms show ?thesis by (auto simp: first_line_with_None)
next
  case (Some j)
  from first_line_with_Some[OF Some] have a: "j < length ls" "w \<in> set (ls ! j)" "\<forall>m<j. w \<notin> set (ls ! m)"
    by auto
  with assms have "j \<le> k" by (meson not_le)
  with a Some show ?thesis by auto
qed

subsection \<open>One turn of the loop over the lines\<close>

lemma loop_body_cases:
  assumes so: "set_order ord" and pl: "processed_located st"
    and il: "index st < length (synonymsByLine st)"
  obtains
    (discard) "length (synonymsByLine st ! index st) < 2"
      "loop_body ord st =
         Inr (st\<lparr>synonymsByLine := pop (index st) (synonymsByLine st),
                index := Suc (index st), changes := True\<rparr>)"
  | (keep) "2 \<le> length (synonymsByLine st ! index st)"
      "set (synonymsByLine st ! index st) \<inter> processedSynonyms st = {}"
      "loop_body ord st =
         Inr \<lparr>synonymsByLine = (synonymsByLine st)[index st := ord (synonymsByLine st ! index st)],
              index = Suc (index st),
              processedSynonyms = processedSynonyms st \<union> set (synonymsByLine st ! index st),
              changes = (changes st \<or>
                 length (ord (synonymsByLine st ! index st)) \<noteq> length (synonymsByLine st ! index st))\<rparr>"
  | (merge) j w where "2 \<le> length (synonymsByLine st ! index st)"
      "j < index st" "w \<in> set (synonymsByLine st ! j)" "w \<in> set (synonymsByLine st ! index st)"
      "\<forall>m<j. w \<notin> set (synonymsByLine st ! m)" "w \<in> processedSynonyms st"
      "fst (scan (ord (synonymsByLine st ! index st)) (processedSynonyms st)) = Some w"
      "first_line_with w ((synonymsByLine st)[index st := ord (synonymsByLine st ! index st)]) 0 = Some j"
      "loop_body ord st =
         Inr \<lparr>synonymsByLine =
                (synonymsByLine st)[j := synonymsByLine st ! j @ ord (synonymsByLine st ! index st),
                                    index st := []],
              index = Suc (index st),
              processedSynonyms = processedSynonyms st \<union> set (synonymsByLine st ! index st),
              changes = True\<rparr>"
proof -
  define ls where "ls = synonymsByLine st"
  define i where "i = index st"
  define P where "P = processedSynonyms st"
  define line where "line = ls ! i"
  have ordl: "distinct (ord line)" "set (ord line) = set line"
    using so by (auto simp: set_order_def)
  show thesis
  proof (cases "length line < 2")
    case True
    then have "loop_body ord st = Inr (st\<lparr>synonymsByLine := pop i ls, index := Suc i, changes := True\<rparr>)"
      by (simp add: loop_body_def Let_def ls_def i_def line_def)
    with True show thesis using discard by (simp add: ls_def i_def line_def)
  next
    case False
    then have len: "2 \<le> length line" by simp
    obtain r P' where sc: "scan (ord line) P = (r, P')" by (cases "scan (ord line) P")
    show thesis
    proof (cases r)
      case None
      from scan_None[OF sc[unfolded None]] ordl have p: "P' = P \<union> set line" "set line \<inter> P = {}"
        by auto
      have "loop_body ord st = Inr \<lparr>synonymsByLine = ls[i := ord line], index = Suc i,
              processedSynonyms = P \<union> set line,
              changes = (changes st \<or> length (ord line) \<noteq> length line)\<rparr>"
        using False sc None p
        by (simp add: loop_body_def Let_def ls_def[symmetric] i_def[symmetric] line_def[symmetric] P_def[symmetric])
      with len p show thesis using keep by (simp add: ls_def i_def line_def P_def)
    next
      case (Some w)
      from scan_Some[OF sc[unfolded Some] ordl(1)] ordl
      have w: "w \<in> set line" "w \<in> P" "P \<subseteq> P'" "P' \<subseteq> P \<union> set line" by auto
      from pl w(2) obtain k where k: "k < i" "k < length ls" "w \<in> set (ls ! k)"
        by (auto simp: processed_located_def P_def i_def ls_def)
      let ?ls1 = "ls[i := ord line]"
      have "k < length ?ls1" "w \<in> set (?ls1 ! k)" using k by auto
      from first_line_with_first[OF this] obtain j where
        j: "j \<le> k" "first_line_with w ?ls1 0 = Some j" "w \<in> set (?ls1 ! j)" "\<forall>m<j. w \<notin> set (?ls1 ! m)"
        by auto
      have ji: "j < i" using j(1) k(1) by simp
      then have j1: "?ls1 ! j = ls ! j" by simp
      have j2: "\<forall>m<j. w \<notin> set (ls ! m)" using j(4) ji by auto
      have PP: "P' \<union> set line = P \<union> set line" using w by auto
      have "loop_body ord st = Inr \<lparr>synonymsByLine = ls[j := ls ! j @ ord line, i := []],
              index = Suc i, processedSynonyms = P \<union> set line, changes = True\<rparr>"
        using False sc Some j(2) j1 ji ordl PP
        by (simp add: loop_body_def Let_def substitute_synonyms_def list_update_swap
            ls_def[symmetric] i_def[symmetric] line_def[symmetric] P_def[symmetric])
      moreover have "fst (scan (ord line) P) = Some w" using sc Some by simp
      ultimately show thesis using merge[of j w] len ji j(2,3) j1 j2 w
        by (simp add: ls_def i_def line_def P_def)
    qed
  qed
qed

lemma nth_pop_before: "k < i \<Longrightarrow> i < length xs \<Longrightarrow> pop i xs ! k = xs ! k"
  by (simp add: pop_def nth_append)

lemma length_pop: "i < length xs \<Longrightarrow> length (pop i xs) = length xs - 1"
  by (simp add: pop_def)

lemma set_pop: "i < length xs \<Longrightarrow> set xs = insert (xs ! i) (set (pop i xs))"
proof -
  assume a: "i < length xs"
  then have "xs = take i xs @ xs ! i # drop (Suc i) xs" by (simp add: id_take_nth_drop)
  then have "set xs = set (take i xs @ xs ! i # drop (Suc i) xs)" by simp
  then show ?thesis unfolding pop_def by simp
qed

lemma processed_located_body:
  assumes so: "set_order ord" and pl: "processed_located st"
    and il: "index st < length (synonymsByLine st)"
    and lb: "loop_body ord st = Inr st'"
  shows "processed_located st'"
  using so pl il
proof (cases rule: loop_body_cases)
  case discard
  with lb have st': "st' = st\<lparr>synonymsByLine := pop (index st) (synonymsByLine st),
                index := Suc (index st), changes := True\<rparr>" by simp
  show ?thesis unfolding processed_located_def
  proof
    fix w assume "w \<in> processedSynonyms st'"
    then have "w \<in> processedSynonyms st" by (simp add: st')
    with pl obtain k where k: "k < index st" "w \<in> set (synonymsByLine st ! k)"
      by (auto simp: processed_located_def)
    then have "k < Suc (index st)" "k < length (pop (index st) (synonymsByLine st))"
      "w \<in> set (pop (index st) (synonymsByLine st) ! k)"
      using il by (auto simp: nth_pop_before length_pop)
    then show "\<exists>k<index st'. k < length (synonymsByLine st') \<and> w \<in> set (synonymsByLine st' ! k)"
      unfolding st' by auto
  qed
next
  case keep
  with lb have st': "st' = \<lparr>synonymsByLine = (synonymsByLine st)[index st := ord (synonymsByLine st ! index st)],
              index = Suc (index st),
              processedSynonyms = processedSynonyms st \<union> set (synonymsByLine st ! index st),
              changes = (changes st \<or>
                 length (ord (synonymsByLine st ! index st)) \<noteq> length (synonymsByLine st ! index st))\<rparr>"
    by simp
  have os: "set (ord (synonymsByLine st ! index st)) = set (synonymsByLine st ! index st)"
    using so by (simp add: set_order_def)
  show ?thesis unfolding processed_located_def
  proof
    fix w assume "w \<in> processedSynonyms st'"
    then consider "w \<in> processedSynonyms st" | "w \<in> set (synonymsByLine st ! index st)"
      by (auto simp: st')
    then show "\<exists>k<index st'. k < length (synonymsByLine st') \<and> w \<in> set (synonymsByLine st' ! k)"
    proof cases
      case 1
      with pl obtain k where k: "k < index st" "w \<in> set (synonymsByLine st ! k)"
        by (auto simp: processed_located_def)
      then show ?thesis using il unfolding st' by (intro exI[of _ k]) auto
    next
      case 2
      then show ?thesis using il os unfolding st' by (intro exI[of _ "index st"]) auto
    qed
  qed
next
  case (merge j u)
  with lb have st': "st' = \<lparr>synonymsByLine =
                (synonymsByLine st)[j := synonymsByLine st ! j @ ord (synonymsByLine st ! index st),
                                    index st := []],
              index = Suc (index st),
              processedSynonyms = processedSynonyms st \<union> set (synonymsByLine st ! index st),
              changes = True\<rparr>" by simp
  have os: "set (ord (synonymsByLine st ! index st)) = set (synonymsByLine st ! index st)"
    using so by (simp add: set_order_def)
  show ?thesis unfolding processed_located_def
  proof
    fix w assume "w \<in> processedSynonyms st'"
    then consider "w \<in> processedSynonyms st" | "w \<in> set (synonymsByLine st ! index st)"
      by (auto simp: st')
    then show "\<exists>k<index st'. k < length (synonymsByLine st') \<and> w \<in> set (synonymsByLine st' ! k)"
    proof cases
      case 1
      with pl obtain k where k: "k < index st" "w \<in> set (synonymsByLine st ! k)"
        by (auto simp: processed_located_def)
      then show ?thesis using il merge(2) unfolding st'
        by (intro exI[of _ k]) (auto simp: nth_list_update)
    next
      case 2
      then show ?thesis using il os merge(2) unfolding st'
        by (intro exI[of _ j]) (auto simp: nth_list_update)
    qed
  qed
qed

lemma merge_target:
  assumes so: "set_order ord" and pl: "processed_located st"
    and il: "index st < length (synonymsByLine st)"
    and sc: "scan (ord (synonymsByLine st ! index st)) (processedSynonyms st) = (Some w, P)"
  shows "\<exists>j<index st.
           first_line_with w ((synonymsByLine st)[index st := ord (synonymsByLine st ! index st)]) 0 = Some j \<and>
           w \<in> set (synonymsByLine st ! j) \<and> (\<forall>m<j. w \<notin> set (synonymsByLine st ! m)) \<and>
           substitute_synonyms w (ord (synonymsByLine st ! index st)) (index st)
               ((synonymsByLine st)[index st := ord (synonymsByLine st ! index st)]) =
             Inr ((synonymsByLine st)[j := synonymsByLine st ! j @ ord (synonymsByLine st ! index st),
                                      index st := []])"
proof -
  let ?ls = "synonymsByLine st" and ?i = "index st"
  let ?line = "ord (?ls ! ?i)"
  let ?ls1 = "?ls[?i := ?line]"
  have d: "distinct ?line" using so by (simp add: set_order_def)
  from scan_Some[OF sc d] have w: "w \<in> processedSynonyms st" by simp
  with pl obtain k where k: "k < ?i" "k < length ?ls" "w \<in> set (?ls ! k)"
    by (auto simp: processed_located_def)
  have "k < length ?ls1" "w \<in> set (?ls1 ! k)" using k by auto
  from first_line_with_first[OF this] obtain j where
    j: "j \<le> k" "first_line_with w ?ls1 0 = Some j" "w \<in> set (?ls1 ! j)" "\<forall>m<j. w \<notin> set (?ls1 ! m)"
    by auto
  have ji: "j < ?i" using j(1) k(1) by simp
  then have j1: "?ls1 ! j = ?ls ! j" by simp
  have j2: "\<forall>m<j. w \<notin> set (?ls ! m)" using j(4) ji by auto
  have s: "substitute_synonyms w ?line ?i ?ls1 = Inr (?ls[j := ?ls ! j @ ?line, ?i := []])"
    using j(2) j1 ji by (simp add: substitute_synonyms_def list_update_swap)
  from ji j(2,3) j1 j2 s show ?thesis by auto
qed

subsection \<open>Invariant rules\<close>

lemma for_loop_invariant:
  assumes "for_loop ord st = Inr st'" "I st"
    and "\<forall>s s'. I s \<longrightarrow> index s < length (synonymsByLine s) \<longrightarrow> loop_body ord s = Inr s' \<longrightarrow> I s'"
  shows "I st' \<and> \<not> index st' < length (synonymsByLine st')"
  using assms
proof (induction ord st rule: for_loop.induct)
  case (1 ord st)
  show ?case
  proof (cases "index st < length (synonymsByLine st)")
    case True
    with "1.prems"(1) obtain s where s: "loop_body ord st = Inr s" "for_loop ord s = Inr st'"
      by (subst (asm) for_loop.simps) (auto split: sum.splits)
    from "1.prems"(2,3) True s(1) have "I s" by blast
    from "1.IH"[OF True s(1) s(2) this "1.prems"(3)] show ?thesis .
  next
    case False
    with "1.prems" show ?thesis by (subst (asm) for_loop.simps) simp
  qed
qed

lemma for_loop_returns:
  assumes "I st"
    and "\<forall>s. I s \<longrightarrow> index s < length (synonymsByLine s) \<longrightarrow> (\<exists>s'. loop_body ord s = Inr s' \<and> I s')"
  shows "\<exists>st'. for_loop ord st = Inr st'"
  using assms
proof (induction ord st rule: for_loop.induct)
  case (1 ord st)
  show ?case
  proof (cases "index st < length (synonymsByLine st)")
    case True
    from "1.prems" True obtain s where s: "loop_body ord st = Inr s" "I s" by blast
    from "1.IH"[OF True s(1) s(2) "1.prems"(2)] obtain st' where "for_loop ord s = Inr st'" by blast
    then show ?thesis using True s(1) by (subst for_loop.simps) auto
  next
    case False
    then show ?thesis by (subst for_loop.simps) simp
  qed
qed

lemma one_pass_initial:
  "one_pass ord ls = (case for_loop ord (initial ls) of Inl e \<Rightarrow> Inl e
      | Inr st \<Rightarrow> Inr (synonymsByLine st, changes st))"
  by (simp add: one_pass_def initial_def)

lemma processed_located_initial: "processed_located (initial ls)"
  by (simp add: processed_located_def initial_def)

lemma loop_body_returns:
  assumes "set_order ord" "processed_located st" "index st < length (synonymsByLine st)"
  shows "\<exists>st'. loop_body ord st = Inr st'"
  using assms by (cases rule: loop_body_cases) auto

lemma pass_invariant:
  assumes so: "set_order ord" and init: "J (initial ls)"
    and step: "\<forall>s s'. processed_located s \<longrightarrow> J s \<longrightarrow> index s < length (synonymsByLine s) \<longrightarrow>
                 loop_body ord s = Inr s' \<longrightarrow> J s'"
  shows "\<exists>st. for_loop ord (initial ls) = Inr st \<and> J st \<and> processed_located st \<and>
           \<not> index st < length (synonymsByLine st) \<and>
           one_pass ord ls = Inr (synonymsByLine st, changes st)"
proof -
  have "\<exists>st. for_loop ord (initial ls) = Inr st"
  proof (rule for_loop_returns[where I = processed_located])
    show "processed_located (initial ls)" by (rule processed_located_initial)
    show "\<forall>s. processed_located s \<longrightarrow> index s < length (synonymsByLine s) \<longrightarrow>
            (\<exists>s'. loop_body ord s = Inr s' \<and> processed_located s')"
      using loop_body_returns[OF so] processed_located_body[OF so] by blast
  qed
  then obtain st where st: "for_loop ord (initial ls) = Inr st" by blast
  have "(processed_located st \<and> J st) \<and> \<not> index st < length (synonymsByLine st)"
  proof (rule for_loop_invariant[OF st, where I = "\<lambda>s. processed_located s \<and> J s"])
    show "processed_located (initial ls) \<and> J (initial ls)"
      using init processed_located_initial by simp
    show "\<forall>s s'. processed_located s \<and> J s \<longrightarrow> index s < length (synonymsByLine s) \<longrightarrow>
            loop_body ord s = Inr s' \<longrightarrow> processed_located s' \<and> J s'"
      using step processed_located_body[OF so] by blast
  qed
  then show ?thesis using st by (auto simp: one_pass_initial)
qed

subsection \<open>The passes end\<close>

lemma weight_pop: "i < length ls \<Longrightarrow> weight (pop i ls) < weight ls"
proof -
  assume a: "i < length ls"
  have "ls = take i ls @ ls ! i # drop (Suc i) ls" using a by (simp add: id_take_nth_drop)
  then have "weight ls = weight (take i ls @ ls ! i # drop (Suc i) ls)" by simp
  also have "\<dots> = weight (pop i ls) + line_weight (ls ! i)"
    unfolding weight_def pop_def by simp
  finally show ?thesis by (simp add: line_weight_def)
qed

lemma weight_update:
  "i < length ls \<Longrightarrow> weight (ls[i := x]) + line_weight (ls ! i) = weight ls + line_weight x"
proof -
  assume a: "i < length ls"
  have 1: "ls = take i ls @ ls ! i # drop (Suc i) ls" using a by (simp add: id_take_nth_drop)
  have 2: "ls[i := x] = take i ls @ x # drop (Suc i) ls" using a by (simp add: upd_conv_take_nth_drop)
  have "weight (take i ls @ x # drop (Suc i) ls) + line_weight (ls ! i)
      = weight (take i ls @ ls ! i # drop (Suc i) ls) + line_weight x"
    by (simp add: weight_def)
  then show ?thesis using 1 2 by simp
qed

lemma set_order_length:
  assumes "set_order ord" shows "length (ord l) \<le> length l"
proof -
  have "distinct (ord l)" using assms by (simp add: set_order_def)
  then have "length (ord l) = card (set (ord l))"
    by (rule distinct_card[symmetric])
  also have "\<dots> = card (set l)" using assms by (simp add: set_order_def)
  also have "\<dots> \<le> length l" by (rule card_length)
  finally show ?thesis .
qed

lemma set_order_Nil: "set_order ord \<Longrightarrow> ord l = [] \<longleftrightarrow> l = []"
  by (metis set_empty set_order_def)

lemma weight_inv_body:
  assumes so: "set_order ord" and pl: "processed_located st"
    and il: "index st < length (synonymsByLine st)"
    and lb: "loop_body ord st = Inr st'"
    and wi: "weight_inv n st"
  shows "weight_inv n st'"
  using so pl il
proof (cases rule: loop_body_cases)
  case discard
  with lb have st': "st' = st\<lparr>synonymsByLine := pop (index st) (synonymsByLine st),
                index := Suc (index st), changes := True\<rparr>" by simp
  show ?thesis using weight_pop[OF il] wi by (simp add: st' weight_inv_def)
next
  case keep
  let ?l = "synonymsByLine st ! index st"
  from keep lb have st': "synonymsByLine st' = (synonymsByLine st)[index st := ord ?l]"
    "changes st' = (changes st \<or> length (ord ?l) \<noteq> length ?l)" by auto
  have "line_weight (ord ?l) \<le> line_weight ?l"
    "length (ord ?l) \<noteq> length ?l \<longrightarrow> line_weight (ord ?l) < line_weight ?l"
    using set_order_length[OF so, of ?l] set_order_Nil[OF so, of ?l] by (auto simp: line_weight_def)
  with weight_update[OF il, of "ord ?l"] wi show ?thesis
    by (auto simp: st' weight_inv_def)
next
  case (merge j w)
  let ?ls = "synonymsByLine st"
  let ?l = "?ls ! index st"
  from merge lb have st': "synonymsByLine st' = ?ls[j := ?ls ! j @ ord ?l, index st := []]"
    "changes st'" by auto
  have j: "j < length ?ls" using merge(2) il by simp
  have 1: "weight (?ls[j := ?ls ! j @ ord ?l]) + line_weight (?ls ! j) = weight ?ls + line_weight (?ls ! j @ ord ?l)"
    using weight_update[OF j] .
  have il': "index st < length (?ls[j := ?ls ! j @ ord ?l])" using il by simp
  have 2: "weight (?ls[j := ?ls ! j @ ord ?l, index st := []]) + line_weight ?l
         = weight (?ls[j := ?ls ! j @ ord ?l]) + line_weight []"
    using weight_update[OF il', of "[]"] merge(2) by simp
  have 3: "?ls ! j \<noteq> []" "?l \<noteq> []" using merge(3,4) by auto
  have 4: "line_weight (?ls ! j @ ord ?l) \<le> line_weight (?ls ! j) + length ?l"
    using 3 set_order_length[OF so, of ?l] by (simp add: line_weight_def)
  have 5: "line_weight ?l = length ?l + 2" "line_weight [] = 1" using 3 by (simp_all add: line_weight_def)
  from 1 2 4 5 have "weight (synonymsByLine st') < weight ?ls" unfolding st' by linarith
  with wi show ?thesis by (simp add: weight_inv_def st')
qed

lemma one_pass_weight:
  assumes so: "set_order ord"
  shows "\<exists>ls' ch. one_pass ord ls = Inr (ls', ch) \<and> weight ls' \<le> weight ls \<and>
           (ch \<longrightarrow> weight ls' < weight ls)"
proof -
  have "\<exists>st. for_loop ord (initial ls) = Inr st \<and> weight_inv (weight ls) st \<and> processed_located st \<and>
           \<not> index st < length (synonymsByLine st) \<and>
           one_pass ord ls = Inr (synonymsByLine st, changes st)"
  proof (rule pass_invariant[OF so])
    show "weight_inv (weight ls) (initial ls)" by (simp add: weight_inv_def initial_def)
    show "\<forall>s s'. processed_located s \<longrightarrow> weight_inv (weight ls) s \<longrightarrow>
            index s < length (synonymsByLine s) \<longrightarrow> loop_body ord s = Inr s' \<longrightarrow>
            weight_inv (weight ls) s'"
      using weight_inv_body[OF so] by blast
  qed
  then show ?thesis by (auto simp: weight_inv_def)
qed

lemma merge_loop_rule:
  assumes so: "set_order ord" and init: "Q ls"
    and step: "\<forall>l l'. Q l \<longrightarrow> one_pass ord l = Inr (l', True) \<longrightarrow> Q l'"
  shows "\<exists>n pre out. merge_loop ord ls = Some (Inr out) \<and> Q pre \<and>
           one_pass ord pre = Inr (out, False) \<and>
           after_passes ord n ls = Some pre \<and> n \<le> weight ls"
  using init
proof (induction ls rule: measure_induct_rule[where f = weight])
  case (less ls)
  from one_pass_weight[OF so, of ls] obtain ls' ch where
    p: "one_pass ord ls = Inr (ls', ch)" "weight ls' \<le> weight ls" "ch \<longrightarrow> weight ls' < weight ls"
    by blast
  show ?case
  proof (cases ch)
    case False
    with p(1) have "merge_loop ord ls = Some (Inr ls')" by (subst merge_loop.simps) simp
    moreover have "after_passes ord 0 ls = Some ls" by simp
    moreover have "one_pass ord ls = Inr (ls', False)" using p(1) False by simp
    ultimately show ?thesis using less.prems
      by (intro exI[of _ 0] exI[of _ ls] exI[of _ ls']) simp
  next
    case True
    with p have lt: "weight ls' < weight ls" by simp
    have pT: "one_pass ord ls = Inr (ls', True)" using p(1) True by simp
    have "Q ls'" using step less.prems pT by blast
    from less.IH[OF lt this] obtain n pre out where
      r: "merge_loop ord ls' = Some (Inr out)" "Q pre" "one_pass ord pre = Inr (out, False)"
         "after_passes ord n ls' = Some pre" "n \<le> weight ls'" by blast
    have "merge_loop ord ls = Some (Inr out)" using p(1) True r(1) by (subst merge_loop.simps) simp
    moreover have "after_passes ord (Suc n) ls = Some pre" using p(1) True r(4) by simp
    moreover have "Suc n \<le> weight ls" using r(5) lt by simp
    ultimately show ?thesis using r(2,3)
      by (intro exI[of _ "Suc n"] exI[of _ pre] exI[of _ out]) simp
  qed
qed

subsection \<open>The states the loops reach\<close>

lemma reachable_processed_located:
  assumes "set_order ord" "reachable ord ls st"
  shows "processed_located st"
  using assms(2)
proof (induction rule: reachable.induct)
  case start
  show ?case by (rule processed_located_initial)
next
  case (turn st st')
  from processed_located_body[OF assms(1) turn.IH turn.hyps(2,3)] show ?case .
next
  case (again st)
  show ?case by (rule processed_located_initial)
qed

text \<open>
  Every state the functions go through is a reachable one: the states of a \<open>for\<close>
  loop started in a reachable state, and the start of every further pass.
\<close>

lemma for_loop_reachable:
  assumes "reachable ord ls st" "for_loop ord st = Inr st'"
  shows "reachable ord ls st' \<and> \<not> index st' < length (synonymsByLine st')"
proof (rule for_loop_invariant[OF assms(2), where I = "reachable ord ls"])
  show "reachable ord ls st" by (rule assms(1))
  show "\<forall>s s'. reachable ord ls s \<longrightarrow> index s < length (synonymsByLine s) \<longrightarrow>
          loop_body ord s = Inr s' \<longrightarrow> reachable ord ls s'"
    using reachable.turn by blast
qed

lemma after_passes_reachable:
  assumes "after_passes ord n l0 = Some pre" "reachable ord ls (initial l0)"
  shows "reachable ord ls (initial pre)"
  using assms
proof (induction n arbitrary: l0)
  case 0
  then show ?case by simp
next
  case (Suc n)
  from Suc.prems(1) obtain l' where p: "one_pass ord l0 = Inr (l', True)"
    "after_passes ord n l' = Some pre"
    by (auto split: sum.splits if_splits)
  from p(1) obtain st where st: "for_loop ord (initial l0) = Inr st" "synonymsByLine st = l'"
    "changes st" by (auto simp: one_pass_initial split: sum.splits)
  from for_loop_reachable[OF Suc.prems(2) st(1)] st(3)
  have "reachable ord ls (initial (synonymsByLine st))" by (auto intro: reachable.again)
  then have "reachable ord ls (initial l')" using st(2) by simp
  from Suc.IH[OF p(2) this] show ?case .
qed

lemma run_states_reachable:
  assumes "after_passes ord n ls = Some pre" "for_loop ord (initial pre) = Inr st"
  shows "reachable ord ls st"
  using for_loop_reachable[OF after_passes_reachable[OF assms(1) reachable.start] assms(2)]
  by simp

subsection \<open>A pass keeps the chains of words\<close>

lemma edges_nth:
  "edges ls = {(a, b). a \<noteq> b \<and> (\<exists>k<length ls. a \<in> set (ls ! k) \<and> b \<in> set (ls ! k))}"
proof -
  have "\<And>a b. (\<exists>l\<in>set ls. a \<in> set l \<and> b \<in> set l) \<longleftrightarrow>
               (\<exists>k<length ls. a \<in> set (ls ! k) \<and> b \<in> set (ls ! k))"
    by (metis in_set_conv_nth)
  then show ?thesis unfolding edges_def by simp
qed

lemma two_distinct_length: "a \<in> set l \<Longrightarrow> b \<in> set l \<Longrightarrow> a \<noteq> b \<Longrightarrow> 2 \<le> length l"
proof -
  assume a: "a \<in> set l" "b \<in> set l" "a \<noteq> b"
  then have "{a, b} \<subseteq> set l" by simp
  then have "card {a, b} \<le> card (set l)" by (intro card_mono) auto
  moreover have "card {a, b} = 2" using a(3) by simp
  ultimately show ?thesis using card_length[of l] by linarith
qed

lemma edges_pop:
  assumes "i < length ls" "length (ls ! i) < 2"
  shows "edges (pop i ls) = edges ls"
proof -
  have s: "set ls = insert (ls ! i) (set (pop i ls))" using assms(1) by (rule set_pop)
  have "\<And>a b. a \<in> set (ls ! i) \<Longrightarrow> b \<in> set (ls ! i) \<Longrightarrow> a \<noteq> b \<Longrightarrow> False"
    using two_distinct_length assms(2) by fastforce
  then show ?thesis unfolding edges_def s by auto
qed

lemma edges_update_same:
  assumes "i < length ls" "set x = set (ls ! i)"
  shows "edges (ls[i := x]) = edges ls"
proof -
  have "map set (ls[i := x]) = map set ls"
    using assms by (simp add: map_update list_update_same_conv)
  then have "set ` set (ls[i := x]) = set ` set ls" by (metis set_map)
  then have "\<And>a b. (\<exists>A\<in>set ` set (ls[i := x]). a \<in> A \<and> b \<in> A) \<longleftrightarrow>
                 (\<exists>A\<in>set ` set ls. a \<in> A \<and> b \<in> A)" by simp
  then have "\<And>a b. (\<exists>l\<in>set (ls[i := x]). a \<in> set l \<and> b \<in> set l) \<longleftrightarrow>
                 (\<exists>l\<in>set ls. a \<in> set l \<and> b \<in> set l)" by simp
  then show ?thesis unfolding edges_def by simp
qed

lemma trancl_between:
  assumes "r \<subseteq> s" "s \<subseteq> r\<^sup>+" shows "s\<^sup>+ = r\<^sup>+"
proof
  have "s\<^sup>+ \<subseteq> (r\<^sup>+)\<^sup>+" using assms(2) by (rule trancl_mono_subset)
  then show "s\<^sup>+ \<subseteq> r\<^sup>+" by simp
  show "r\<^sup>+ \<subseteq> s\<^sup>+" using assms(1) by (rule trancl_mono_subset)
qed

lemma edges_merge:
  assumes ji: "j < i" and il: "i < length ls"
    and wj: "w \<in> set (ls ! j)" and wi: "w \<in> set (ls ! i)" and sx: "set x = set (ls ! i)"
  shows "(edges (ls[j := ls ! j @ x, i := []]))\<^sup>+ = (edges ls)\<^sup>+"
proof (rule trancl_between)
  let ?ls' = "ls[j := ls ! j @ x, i := []]"
  have jl: "j < length ls" using ji il by simp
  have nj: "?ls' ! j = ls ! j @ x" using ji il by simp
  have ni: "?ls' ! i = []" using il by simp
  have nk: "\<And>k. k \<noteq> i \<Longrightarrow> k \<noteq> j \<Longrightarrow> ?ls' ! k = ls ! k" by simp
  show "edges ls \<subseteq> edges ?ls'"
  proof
    fix p assume "p \<in> edges ls"
    then obtain a b k where p: "p = (a, b)" "a \<noteq> b" "k < length ls" "a \<in> set (ls ! k)" "b \<in> set (ls ! k)"
      by (auto simp: edges_nth)
    have "\<exists>m<length ?ls'. a \<in> set (?ls' ! m) \<and> b \<in> set (?ls' ! m)"
    proof (cases "k = i \<or> k = j")
      case True
      then have "a \<in> set (?ls' ! j)" "b \<in> set (?ls' ! j)" using p(4,5) sx nj by auto
      then show ?thesis using jl by auto
    next
      case False
      then show ?thesis using p(3,4,5) nk[of k] by (intro exI[of _ k]) simp
    qed
    then show "p \<in> edges ?ls'" using p(1,2) by (simp add: edges_nth)
  qed
  show "edges ?ls' \<subseteq> (edges ls)\<^sup>+"
  proof
    fix p assume "p \<in> edges ?ls'"
    then obtain a b k where p: "p = (a, b)" "a \<noteq> b" "k < length ls" "a \<in> set (?ls' ! k)" "b \<in> set (?ls' ! k)"
      by (auto simp: edges_nth)
    have ki: "k \<noteq> i" using p(4) ni by auto
    have e: "\<And>c d m. c \<noteq> d \<Longrightarrow> m < length ls \<Longrightarrow> c \<in> set (ls ! m) \<Longrightarrow> d \<in> set (ls ! m) \<Longrightarrow> (c, d) \<in> (edges ls)\<^sup>+"
      by (rule r_into_trancl) (auto simp: edges_nth)
    have "(a, b) \<in> (edges ls)\<^sup>+"
    proof (cases "k = j")
      case False
      have "?ls' ! k = ls ! k" using nk[OF ki False] .
      then show ?thesis using e[OF p(2,3)] p(4,5) by simp
    next
      case True
      then have ab: "a \<in> set (ls ! j) \<or> a \<in> set (ls ! i)" "b \<in> set (ls ! j) \<or> b \<in> set (ls ! i)"
        using p(4,5) nj sx by auto
      have viaw: "\<And>c m. m < length ls \<Longrightarrow> c \<in> set (ls ! m) \<Longrightarrow> w \<in> set (ls ! m) \<Longrightarrow>
                    c = w \<or> ((c, w) \<in> (edges ls)\<^sup>+ \<and> (w, c) \<in> (edges ls)\<^sup>+)"
      proof -
        fix c m assume h: "m < length ls" "c \<in> set (ls ! m)" "w \<in> set (ls ! m)"
        show "c = w \<or> ((c, w) \<in> (edges ls)\<^sup>+ \<and> (w, c) \<in> (edges ls)\<^sup>+)"
        proof (cases "c = w")
          case True then show ?thesis by simp
        next
          case False
          then have "w \<noteq> c" by simp
          from e[OF False h(1,2,3)] e[OF this h(1,3,2)] show ?thesis by simp
        qed
      qed
      have aw: "a = w \<or> ((a, w) \<in> (edges ls)\<^sup>+ \<and> (w, a) \<in> (edges ls)\<^sup>+)"
        using ab(1) viaw[OF jl _ wj, of a] viaw[OF il _ wi, of a] by argo
      have bw: "b = w \<or> ((b, w) \<in> (edges ls)\<^sup>+ \<and> (w, b) \<in> (edges ls)\<^sup>+)"
        using ab(2) viaw[OF jl _ wj, of b] viaw[OF il _ wi, of b] by argo
      from aw bw p(2) consider "a = w" "(w, b) \<in> (edges ls)\<^sup>+"
        | "b = w" "(a, w) \<in> (edges ls)\<^sup>+"
        | "(a, w) \<in> (edges ls)\<^sup>+" "(w, b) \<in> (edges ls)\<^sup>+" by blast
      then show ?thesis
      proof cases
        case 1 then show ?thesis by simp
      next
        case 2 then show ?thesis by simp
      next
        case 3 then show ?thesis by (rule trancl_trans)
      qed
    qed
    then show "p \<in> (edges ls)\<^sup>+" using p(1) by simp
  qed
qed

lemma edges_body:
  assumes so: "set_order ord" and pl: "processed_located st"
    and il: "index st < length (synonymsByLine st)"
    and lb: "loop_body ord st = Inr st'"
  shows "(edges (synonymsByLine st'))\<^sup>+ = (edges (synonymsByLine st))\<^sup>+"
  using so pl il
proof (cases rule: loop_body_cases)
  case discard
  with lb have "synonymsByLine st' = pop (index st) (synonymsByLine st)" by auto
  then show ?thesis using edges_pop[OF il discard(1)] by simp
next
  case keep
  with lb have "synonymsByLine st' = (synonymsByLine st)[index st := ord (synonymsByLine st ! index st)]"
    by auto
  moreover have "set (ord (synonymsByLine st ! index st)) = set (synonymsByLine st ! index st)"
    using so by (simp add: set_order_def)
  ultimately show ?thesis using edges_update_same[OF il] by simp
next
  case (merge j w)
  with lb have "synonymsByLine st' = (synonymsByLine st)[j := synonymsByLine st ! j @ ord (synonymsByLine st ! index st), index st := []]"
    by auto
  moreover have "set (ord (synonymsByLine st ! index st)) = set (synonymsByLine st ! index st)"
    using so by (simp add: set_order_def)
  ultimately show ?thesis using edges_merge[OF merge(2) il merge(3,4)] by simp
qed

subsection \<open>A pass without change leaves a partition\<close>

lemma clean_prefix_body:
  assumes so: "set_order ord" and pl: "processed_located st"
    and il: "index st < length (synonymsByLine st)"
    and lb: "loop_body ord st = Inr st'"
    and cp: "clean_prefix st"
  shows "clean_prefix st'"
  using so pl il
proof (cases rule: loop_body_cases)
  case discard
  with lb show ?thesis by (auto simp: clean_prefix_def)
next
  case (merge j w)
  with lb show ?thesis by (auto simp: clean_prefix_def)
next
  case keep
  let ?ls = "synonymsByLine st" and ?i = "index st" and ?P = "processedSynonyms st"
  let ?l = "?ls ! ?i"
  from keep lb have st': "synonymsByLine st' = ?ls[?i := ord ?l]" "index st' = Suc ?i"
    "processedSynonyms st' = ?P \<union> set ?l"
    "changes st' = (changes st \<or> length (ord ?l) \<noteq> length ?l)" by auto
  have ol: "distinct (ord ?l)" "set (ord ?l) = set ?l" using so by (auto simp: set_order_def)
  show ?thesis unfolding clean_prefix_def
  proof
    assume nc: "\<not> changes st'"
    then have nc0: "\<not> changes st" and len: "length (ord ?l) = length ?l" using st'(4) by auto
    from cp nc0 have c: "\<forall>k<?i. distinct (?ls ! k) \<and> 2 \<le> length (?ls ! k) \<and> set (?ls ! k) \<subseteq> ?P"
      "\<forall>k<?i. \<forall>m<?i. k \<noteq> m \<longrightarrow> set (?ls ! k) \<inter> set (?ls ! m) = {}"
      by (auto simp: clean_prefix_def)
    have n: "\<And>k. k < Suc ?i \<Longrightarrow> synonymsByLine st' ! k = (if k = ?i then ord ?l else ?ls ! k)"
      using il by (simp add: st'(1) nth_list_update)
    have a: "\<forall>k<Suc ?i. distinct (synonymsByLine st' ! k) \<and> 2 \<le> length (synonymsByLine st' ! k) \<and>
                       set (synonymsByLine st' ! k) \<subseteq> ?P \<union> set ?l"
    proof (intro allI impI)
      fix k assume k: "k < Suc ?i"
      show "distinct (synonymsByLine st' ! k) \<and> 2 \<le> length (synonymsByLine st' ! k) \<and>
                       set (synonymsByLine st' ! k) \<subseteq> ?P \<union> set ?l"
      proof (cases "k = ?i")
        case True
        then show ?thesis using n[OF k] ol len keep(1) by simp
      next
        case False
        then have "k < ?i" using k by simp
        then show ?thesis using n[OF k] False c(1) by auto
      qed
    qed
    have d: "\<And>k. k < ?i \<Longrightarrow> set (?ls ! k) \<inter> set ?l = {}"
      using c(1) keep(2) by blast
    have b: "\<forall>k<Suc ?i. \<forall>m<Suc ?i. k \<noteq> m \<longrightarrow>
            set (synonymsByLine st' ! k) \<inter> set (synonymsByLine st' ! m) = {}"
    proof (intro allI impI)
      fix k m assume km: "k < Suc ?i" "m < Suc ?i" "k \<noteq> m"
      show "set (synonymsByLine st' ! k) \<inter> set (synonymsByLine st' ! m) = {}"
      proof (cases "k = ?i")
        case True
        then have "m < ?i" using km by simp
        then show ?thesis using True d[of m] n[OF km(1)] n[OF km(2)] ol(2) by auto
      next
        case False
        then have k: "k < ?i" using km by simp
        show ?thesis
        proof (cases "m = ?i")
          case True
          then show ?thesis using k d[of k] n[OF km(1)] n[OF km(2)] ol(2) by auto
        next
          case False
          then have "m < ?i" using km by simp
          then show ?thesis using k km(3) c(2) n[OF km(1)] n[OF km(2)] by auto
        qed
      qed
    qed
    show "index st' \<le> length (synonymsByLine st') \<and>
        (\<forall>k<index st'. distinct (synonymsByLine st' ! k) \<and> 2 \<le> length (synonymsByLine st' ! k) \<and>
                       set (synonymsByLine st' ! k) \<subseteq> processedSynonyms st') \<and>
        (\<forall>k<index st'. \<forall>m<index st'. k \<noteq> m \<longrightarrow>
            set (synonymsByLine st' ! k) \<inter> set (synonymsByLine st' ! m) = {})"
      using a b il unfolding st'(2,3) by (simp add: st'(1))
  qed
qed

lemma one_pass_props:
  assumes so: "set_order ord"
  shows "\<exists>ls' ch. one_pass ord ls = Inr (ls', ch) \<and> (edges ls')\<^sup>+ = (edges ls)\<^sup>+ \<and>
           (\<not> ch \<longrightarrow> partitioned ls')"
proof -
  let ?J = "\<lambda>s. (edges (synonymsByLine s))\<^sup>+ = (edges ls)\<^sup>+ \<and> clean_prefix s"
  have "\<exists>st. for_loop ord (initial ls) = Inr st \<and> ?J st \<and> processed_located st \<and>
           \<not> index st < length (synonymsByLine st) \<and>
           one_pass ord ls = Inr (synonymsByLine st, changes st)"
  proof (rule pass_invariant[OF so])
    show "?J (initial ls)" by (simp add: initial_def clean_prefix_def)
    show "\<forall>s s'. processed_located s \<longrightarrow> ?J s \<longrightarrow> index s < length (synonymsByLine s) \<longrightarrow>
            loop_body ord s = Inr s' \<longrightarrow> ?J s'"
      using edges_body[OF so] clean_prefix_body[OF so] by metis
  qed
  then obtain st where st: "(edges (synonymsByLine st))\<^sup>+ = (edges ls)\<^sup>+" "clean_prefix st"
    "\<not> index st < length (synonymsByLine st)" "one_pass ord ls = Inr (synonymsByLine st, changes st)"
    by blast
  have "partitioned (synonymsByLine st)" if nc: "\<not> changes st"
  proof -
    from st(2) nc have c: "index st \<le> length (synonymsByLine st)"
      "\<forall>k<index st. distinct (synonymsByLine st ! k) \<and> 2 \<le> length (synonymsByLine st ! k)"
      "\<forall>k<index st. \<forall>m<index st. k \<noteq> m \<longrightarrow>
            set (synonymsByLine st ! k) \<inter> set (synonymsByLine st ! m) = {}"
      by (auto simp: clean_prefix_def)
    from c(1) st(3) have e: "index st = length (synonymsByLine st)" by simp
    show ?thesis unfolding partitioned_def using c(2,3) unfolding e
      by (auto simp: in_set_conv_nth)
  qed
  with st show ?thesis by blast
qed

lemma one_pass_edges:
  "set_order ord \<Longrightarrow> one_pass ord l = Inr (l', ch) \<Longrightarrow> (edges l')\<^sup>+ = (edges l)\<^sup>+"
  using one_pass_props[of ord l] by auto

lemma one_pass_partitioned:
  "set_order ord \<Longrightarrow> one_pass ord l = Inr (l', False) \<Longrightarrow> partitioned l'"
  using one_pass_props[of ord l] by auto

lemma consolidation:
  assumes so: "set_order ord"
  shows "\<exists>n pre out. merge_loop ord ls = Some (Inr out) \<and>
           after_passes ord n ls = Some pre \<and> n \<le> weight ls \<and>
           one_pass ord pre = Inr (out, False) \<and>
           (edges out)\<^sup>+ = (edges ls)\<^sup>+ \<and> partitioned out"
proof -
  let ?Q = "\<lambda>l. (edges l)\<^sup>+ = (edges ls)\<^sup>+"
  have "\<exists>n pre out. merge_loop ord ls = Some (Inr out) \<and> ?Q pre \<and>
           one_pass ord pre = Inr (out, False) \<and>
           after_passes ord n ls = Some pre \<and> n \<le> weight ls"
  proof (rule merge_loop_rule[OF so])
    show "?Q ls" by simp
    show "\<forall>l l'. ?Q l \<longrightarrow> one_pass ord l = Inr (l', True) \<longrightarrow> ?Q l'"
      using one_pass_edges[OF so] by metis
  qed
  then obtain n pre out where r: "merge_loop ord ls = Some (Inr out)" "?Q pre"
    "one_pass ord pre = Inr (out, False)" "after_passes ord n ls = Some pre" "n \<le> weight ls"
    by blast
  have "(edges out)\<^sup>+ = (edges ls)\<^sup>+" using one_pass_edges[OF so r(3)] r(2) by simp
  moreover have "partitioned out" using one_pass_partitioned[OF so r(3)] .
  ultimately show ?thesis using r by blast
qed

subsection \<open>A pass over a partitioned list\<close>

lemma set_order_same_length:
  assumes "set_order ord" "distinct l" shows "length (ord l) = length l"
proof -
  have "distinct (ord l)" "set (ord l) = set l" using assms(1) by (auto simp: set_order_def)
  then have "length (ord l) = card (set l)" using distinct_card[of "ord l"] by simp
  also have "\<dots> = length l" using assms(2) by (rule distinct_card)
  finally show ?thesis .
qed

lemma settled_body:
  assumes so: "set_order ord" and p: "partitioned ls" and pl: "processed_located st"
    and s: "settled ord ls st" and il: "index st < length (synonymsByLine st)"
    and lb: "loop_body ord st = Inr st'"
  shows "settled ord ls st'"
proof -
  let ?i = "index st"
  from s have nc: "\<not> changes st" and ile: "?i \<le> length ls"
    and sl: "synonymsByLine st = map ord (take ?i ls) @ drop ?i ls"
    and P: "processedSynonyms st = \<Union> (set ` set (take ?i ls))"
    by (auto simp: settled_def)
  have len: "length (synonymsByLine st) = length ls" using sl ile by simp
  then have i: "?i < length ls" using il by simp
  have cur: "synonymsByLine st ! ?i = ls ! ?i" using sl i by (simp add: nth_append)
  have li: "ls ! ?i \<in> set ls" using i by simp
  then have d: "distinct (ls ! ?i)" "2 \<le> length (ls ! ?i)" using p by (auto simp: partitioned_def)
  have disj: "set (ls ! ?i) \<inter> processedSynonyms st = {}"
  proof (rule ccontr)
    assume "set (ls ! ?i) \<inter> processedSynonyms st \<noteq> {}"
    then obtain w l where w: "w \<in> set (ls ! ?i)" "l \<in> set (take ?i ls)" "w \<in> set l"
      unfolding P by auto
    from w(2) obtain k where k: "k < ?i" "l = ls ! k" using i
      by (auto simp: in_set_conv_nth)
    have "set (ls ! k) \<inter> set (ls ! ?i) = {}" using p k(1) i by (simp add: partitioned_def)
    with w k show False by auto
  qed
  from so pl il show ?thesis
  proof (cases rule: loop_body_cases)
    case discard
    with d(2) cur show ?thesis by simp
  next
    case (merge j w)
    with disj cur show ?thesis by auto
  next
    case keep
    with lb cur have st': "synonymsByLine st' = (synonymsByLine st)[?i := ord (ls ! ?i)]"
      "index st' = Suc ?i" "processedSynonyms st' = processedSynonyms st \<union> set (ls ! ?i)"
      "changes st' = (changes st \<or> length (ord (ls ! ?i)) \<noteq> length (ls ! ?i))" by auto
    have 1: "\<not> changes st'" using st'(4) nc set_order_same_length[OF so d(1)] by simp
    have t: "take (Suc ?i) ls = take ?i ls @ [ls ! ?i]" using i by (rule take_Suc_conv_app_nth)
    have dr: "drop ?i ls = ls ! ?i # drop (Suc ?i) ls" using i by (simp add: Cons_nth_drop_Suc)
    have 2: "synonymsByLine st' = map ord (take (Suc ?i) ls) @ drop (Suc ?i) ls"
      unfolding st'(1) sl t dr using ile by (simp add: list_update_append)
    have 3: "processedSynonyms st' = \<Union> (set ` set (take (Suc ?i) ls))"
      unfolding st'(3) P t by auto
    from 1 2 3 i show ?thesis by (simp add: settled_def st'(2))
  qed
qed

lemma one_pass_partitioned_input:
  assumes so: "set_order ord" and p: "partitioned ls"
  shows "one_pass ord ls = Inr (map ord ls, False)"
proof -
  have "\<exists>st. for_loop ord (initial ls) = Inr st \<and> settled ord ls st \<and> processed_located st \<and>
           \<not> index st < length (synonymsByLine st) \<and>
           one_pass ord ls = Inr (synonymsByLine st, changes st)"
  proof (rule pass_invariant[OF so])
    show "settled ord ls (initial ls)" by (simp add: settled_def initial_def)
    show "\<forall>s s'. processed_located s \<longrightarrow> settled ord ls s \<longrightarrow> index s < length (synonymsByLine s) \<longrightarrow>
            loop_body ord s = Inr s' \<longrightarrow> settled ord ls s'"
      using settled_body[OF so p] by blast
  qed
  then obtain st where st: "settled ord ls st" "\<not> index st < length (synonymsByLine st)"
    "one_pass ord ls = Inr (synonymsByLine st, changes st)" by blast
  from st(1) have a: "\<not> changes st" "index st \<le> length ls"
    "synonymsByLine st = map ord (take (index st) ls) @ drop (index st) ls"
    by (auto simp: settled_def)
  have "length (synonymsByLine st) = length ls" using a(2,3) by simp
  with st(2) a(2) have "index st = length ls" by simp
  with a(3) have "synonymsByLine st = map ord ls" by simp
  with st(3) a(1) show ?thesis by simp
qed

lemma merge_loop_partitioned_input:
  assumes "set_order ord" "partitioned ls"
  shows "merge_loop ord ls = Some (Inr (map ord ls))"
  using one_pass_partitioned_input[OF assms] by (subst merge_loop.simps) simp

section \<open>Chains and partitions\<close>

lemma chained_edges_imp: "chained ls a b \<Longrightarrow> a = b \<or> (a, b) \<in> (edges ls)\<^sup>+"
proof (induction rule: chained.induct)
  case (same_line l a b)
  then show ?case by (auto simp: edges_def)
next
  case (next_line a c l b)
  have cb: "c = b \<or> (c, b) \<in> (edges ls)\<^sup>+"
    using next_line.hyps(2,3,4) by (auto simp: edges_def)
  from next_line.IH cb show ?case by (auto intro: trancl_trans)
qed

lemma edges_chained: "(a, b) \<in> (edges ls)\<^sup>+ \<Longrightarrow> chained ls a b"
proof (induction rule: trancl.induct)
  case (r_into_trancl a b)
  then show ?case by (auto simp: edges_def intro: chained.same_line)
next
  case (trancl_into_trancl a c b)
  from trancl_into_trancl.hyps(2) obtain l where "l \<in> set ls" "c \<in> set l" "b \<in> set l"
    by (auto simp: edges_def)
  with trancl_into_trancl.IH show ?case by (rule chained.next_line)
qed

lemma chained_iff_edges: "a \<noteq> b \<Longrightarrow> chained ls a b \<longleftrightarrow> (a, b) \<in> (edges ls)\<^sup>+"
  using chained_edges_imp edges_chained by blast

lemma partitioned_same_line:
  assumes "partitioned out" "l \<in> set out" "l' \<in> set out" "c \<in> set l" "c \<in> set l'"
  shows "l = l'"
proof -
  from assms(2,3) obtain i j where ij: "i < length out" "out ! i = l" "j < length out" "out ! j = l'"
    by (auto simp: in_set_conv_nth)
  have "i = j"
  proof (rule ccontr)
    assume "i \<noteq> j"
    with assms(1) ij have "set l \<inter> set l' = {}" by (auto simp: partitioned_def)
    with assms(4,5) show False by auto
  qed
  with ij show ?thesis by simp
qed

lemma partitioned_trancl:
  assumes p: "partitioned out" and t: "(a, b) \<in> (edges out)\<^sup>+"
  shows "\<exists>l\<in>set out. a \<in> set l \<and> b \<in> set l"
  using t
proof (induction rule: trancl.induct)
  case (r_into_trancl a b)
  then show ?case by (auto simp: edges_def)
next
  case (trancl_into_trancl a c b)
  from trancl_into_trancl.IH obtain l where l: "l \<in> set out" "a \<in> set l" "c \<in> set l" by auto
  from trancl_into_trancl.hyps(2) obtain l' where l': "l' \<in> set out" "c \<in> set l'" "b \<in> set l'"
    by (auto simp: edges_def)
  from partitioned_same_line[OF p l(1) l'(1) l(3) l'(2)] l l' show ?case by auto
qed

lemma partitioned_other_word:
  assumes "partitioned out" "l \<in> set out" "a \<in> set l"
  shows "\<exists>b\<in>set l. b \<noteq> a"
proof (rule ccontr)
  assume "\<not> (\<exists>b\<in>set l. b \<noteq> a)"
  then have "set l \<subseteq> {a}" by auto
  then have "card (set l) \<le> card {a}" by (intro card_mono) auto
  moreover have "card (set l) = length l" "2 \<le> length l"
    using assms(1,2) by (auto simp: partitioned_def distinct_card)
  ultimately show False by simp
qed

lemma Domain_edges:
  "Domain (edges ls) = {w. \<exists>l\<in>set ls. w \<in> set l \<and> 2 \<le> card (set l)}"
proof (intro set_eqI iffI)
  fix w assume "w \<in> Domain (edges ls)"
  then obtain b l where h: "w \<noteq> b" "l \<in> set ls" "w \<in> set l" "b \<in> set l" by (auto simp: edges_def)
  then have "{w, b} \<subseteq> set l" by simp
  then have "card {w, b} \<le> card (set l)" by (intro card_mono) auto
  then have "2 \<le> card (set l)" using h(1) by simp
  with h show "w \<in> {w. \<exists>l\<in>set ls. w \<in> set l \<and> 2 \<le> card (set l)}" by auto
next
  fix w assume "w \<in> {w. \<exists>l\<in>set ls. w \<in> set l \<and> 2 \<le> card (set l)}"
  then obtain l where h: "l \<in> set ls" "w \<in> set l" "2 \<le> card (set l)" by auto
  have "\<exists>b\<in>set l. b \<noteq> w"
  proof (rule ccontr)
    assume "\<not> (\<exists>b\<in>set l. b \<noteq> w)"
    then have "set l \<subseteq> {w}" by auto
    then have "card (set l) \<le> card {w}" by (intro card_mono) auto
    with h(3) show False by simp
  qed
  with h show "w \<in> Domain (edges ls)" by (auto simp: edges_def)
qed

lemma partitioned_words:
  assumes "partitioned out"
  shows "\<Union> (set ` set out) = Domain (edges out)"
proof (intro set_eqI iffI)
  fix w assume "w \<in> \<Union> (set ` set out)"
  then obtain l where l: "l \<in> set out" "w \<in> set l" by auto
  from partitioned_other_word[OF assms l] obtain b where "b \<in> set l" "b \<noteq> w" by auto
  with l show "w \<in> Domain (edges out)" by (auto simp: edges_def)
next
  fix w assume "w \<in> Domain (edges out)"
  then show "w \<in> \<Union> (set ` set out)" by (auto simp: edges_def)
qed

lemma words_preserved:
  assumes "partitioned out" "(edges out)\<^sup>+ = (edges ls)\<^sup>+"
  shows "\<Union> (set ` set out) = {w. \<exists>l\<in>set ls. w \<in> set l \<and> 2 \<le> card (set l)}"
proof -
  have "\<Union> (set ` set out) = Domain (edges out)" using assms(1) by (rule partitioned_words)
  also have "\<dots> = Domain ((edges out)\<^sup>+)" by (simp add: trancl_domain)
  also have "\<dots> = Domain (edges ls)" using assms(2) by (simp add: trancl_domain)
  finally show ?thesis by (simp add: Domain_edges)
qed

lemma together_iff_chained:
  assumes p: "partitioned out" and e: "(edges out)\<^sup>+ = (edges ls)\<^sup>+" and ab: "a \<noteq> b"
  shows "(\<exists>l\<in>set out. a \<in> set l \<and> b \<in> set l) \<longleftrightarrow> chained ls a b"
proof
  assume "\<exists>l\<in>set out. a \<in> set l \<and> b \<in> set l"
  then have "(a, b) \<in> edges out" using ab by (auto simp: edges_def)
  then have "(a, b) \<in> (edges ls)\<^sup>+" using e by auto
  then show "chained ls a b" by (rule edges_chained)
next
  assume "chained ls a b"
  then have "(a, b) \<in> (edges out)\<^sup>+" using ab e by (simp add: chained_iff_edges)
  then show "\<exists>l\<in>set out. a \<in> set l \<and> b \<in> set l" using p by (rule partitioned_trancl[rotated])
qed

lemma line_is_component:
  assumes p: "partitioned out" and e: "(edges out)\<^sup>+ = (edges ls)\<^sup>+"
    and l: "l \<in> set out" and a: "a \<in> set l"
  shows "set l = {b. chained ls a b}"
proof (intro set_eqI iffI)
  fix b assume b: "b \<in> set l"
  show "b \<in> {b. chained ls a b}"
  proof (cases "a = b")
    case True
    have "a \<in> \<Union> (set ` set out)" using l a by auto
    then have "a \<in> {w. \<exists>l\<in>set ls. w \<in> set l \<and> 2 \<le> card (set l)}"
      using words_preserved[OF p e] by simp
    then obtain l0 where "l0 \<in> set ls" "a \<in> set l0" by auto
    then have "chained ls a a" by (auto intro: chained.same_line)
    with True show ?thesis by simp
  next
    case False
    then show ?thesis using together_iff_chained[OF p e False] l a b by auto
  qed
next
  fix b assume "b \<in> {b. chained ls a b}"
  then have c: "chained ls a b" by simp
  show "b \<in> set l"
  proof (cases "a = b")
    case True then show ?thesis using a by simp
  next
    case False
    with c together_iff_chained[OF p e False] obtain l' where l': "l' \<in> set out" "a \<in> set l'" "b \<in> set l'"
      by auto
    from partitioned_same_line[OF p l l'(1) a l'(2)] l'(3) show ?thesis by simp
  qed
qed

lemma all_in_one_line:
  assumes p: "partitioned out" and e: "(edges out)\<^sup>+ = (edges ls)\<^sup>+"
    and l: "ws \<in> set ls" and c: "2 \<le> card (set ws)"
  shows "\<exists>l\<in>set out. set ws \<subseteq> set l"
proof -
  from c have "ws \<noteq> []" by auto
  then obtain a where a: "a \<in> set ws" by (cases ws) auto
  then have "a \<in> {w. \<exists>l\<in>set ls. w \<in> set l \<and> 2 \<le> card (set l)}" using l c by auto
  then have "a \<in> \<Union> (set ` set out)" using words_preserved[OF p e] by simp
  then obtain l0 where l0: "l0 \<in> set out" "a \<in> set l0" by auto
  have "set ws \<subseteq> set l0"
  proof
    fix b assume b: "b \<in> set ws"
    show "b \<in> set l0"
    proof (cases "a = b")
      case True then show ?thesis using l0 by simp
    next
      case False
      have "chained ls a b" using l a b by (rule chained.same_line)
      with together_iff_chained[OF p e False] obtain l' where
        l': "l' \<in> set out" "a \<in> set l'" "b \<in> set l'" by auto
      from partitioned_same_line[OF p l0(1) l'(1) l0(2) l'(2)] l'(3) show ?thesis by simp
    qed
  qed
  with l0 show ?thesis by auto
qed

lemma same_components_subset:
  assumes p1: "partitioned out1" and e1: "(edges out1)\<^sup>+ = (edges ls)\<^sup>+"
    and p2: "partitioned out2" and e2: "(edges out2)\<^sup>+ = (edges ls)\<^sup>+"
  shows "set ` set out1 \<subseteq> set ` set out2"
proof
  fix A assume "A \<in> set ` set out1"
  then obtain l where l: "l \<in> set out1" "A = set l" by auto
  from partitioned_other_word[OF p1 l(1)] l(1) p1 have "l \<noteq> []"
    by (auto simp: partitioned_def)
  then obtain a where a: "a \<in> set l" by (cases l) auto
  have "a \<in> \<Union> (set ` set out1)" using l(1) a by auto
  then have "a \<in> \<Union> (set ` set out2)"
    using words_preserved[OF p1 e1] words_preserved[OF p2 e2] by simp
  then obtain l' where l': "l' \<in> set out2" "a \<in> set l'" by auto
  have "set l = set l'"
    using line_is_component[OF p1 e1 l(1) a] line_is_component[OF p2 e2 l'(1) l'(2)] by simp
  with l(2) l'(1) show "A \<in> set ` set out2" by auto
qed

lemma partitioned_length:
  assumes "partitioned out" shows "length out = card (set ` set out)"
proof -
  have "distinct (map set out)"
  proof (subst distinct_conv_nth, intro allI impI)
    fix i j assume ij: "i < length (map set out)" "j < length (map set out)" "i \<noteq> j"
    then have d: "set (out ! i) \<inter> set (out ! j) = {}" using assms by (simp add: partitioned_def)
    have "out ! i \<in> set out" using ij(1) by simp
    then have "2 \<le> length (out ! i)" using assms by (simp add: partitioned_def)
    then have "set (out ! i) \<noteq> {}" by auto
    with d have "set (out ! i) \<noteq> set (out ! j)" by auto
    then show "map set out ! i \<noteq> map set out ! j" using ij by simp
  qed
  then have "card (set (map set out)) = length (map set out)" by (rule distinct_card)
  then show ?thesis by simp
qed

lemma output_words_parsed:
  assumes p: "partitioned out" and e: "(edges out)\<^sup>+ = (edges ls)\<^sup>+"
    and l: "l \<in> set out" and w: "w \<in> set l"
  shows "\<exists>ws\<in>set ls. w \<in> set ws"
proof -
  have "w \<in> \<Union> (set ` set out)" using l w by auto
  then have "w \<in> {w. \<exists>l\<in>set ls. w \<in> set l \<and> 2 \<le> card (set l)}"
    using words_preserved[OF p e] by simp
  then show ?thesis by auto
qed

lemma merged_with_sharing_lines:
  assumes p: "partitioned out" and e: "(edges out)\<^sup>+ = (edges ls)\<^sup>+"
    and t: "ws \<in> set ls" and l: "l \<in> set out" and sub: "set ws \<subseteq> set l"
    and o: "other \<in> set ls" and sh: "set other \<inter> set ws \<noteq> {}"
  shows "set other \<subseteq> set l"
proof
  fix b assume b: "b \<in> set other"
  from sh obtain c where c: "c \<in> set other" "c \<in> set ws" by auto
  then have cl: "c \<in> set l" using sub by auto
  show "b \<in> set l"
  proof (cases "c = b")
    case True then show ?thesis using cl by simp
  next
    case False
    have "chained ls c b" using o c(1) b by (rule chained.same_line)
    with together_iff_chained[OF p e False] obtain l' where
      l': "l' \<in> set out" "c \<in> set l'" "b \<in> set l'" by auto
    from partitioned_same_line[OF p l l'(1) cl l'(2)] l'(3) show ?thesis by simp
  qed
qed


section \<open>The file of the first run read again\<close>

lemma tokens_size_lines:
  "tokens_size ls = sum_list (map (\<lambda>l. length (concat l) + length l) ls)"
proof (induction ls)
  case Nil
  show ?case by (simp add: tokens_size_def)
next
  case (Cons l ls)
  have "sum_list (map (\<lambda>w. length w + 1) l) = length (concat l) + length l"
    by (induction l) auto
  with Cons show ?case by (simp add: tokens_size_def)
qed

lemma sum_list_distinct_subset:
  fixes f :: "'a \<Rightarrow> nat"
  assumes "distinct xs" "set xs \<subseteq> set ys"
  shows "sum_list (map f xs) \<le> sum_list (map f ys)"
  using assms
proof (induction xs arbitrary: ys)
  case Nil
  show ?case by simp
next
  case (Cons x xs)
  have x: "x \<in> set ys" using Cons.prems(2) by simp
  have "set xs \<subseteq> set (remove1 x ys)"
  proof
    fix a assume a: "a \<in> set xs"
    then have "a \<noteq> x" "a \<in> set ys" using Cons.prems by auto
    then show "a \<in> set (remove1 x ys)" by (simp add: in_set_remove1)
  qed
  with Cons.IH[of "remove1 x ys"] Cons.prems(1)
  have "sum_list (map f xs) \<le> sum_list (map f (remove1 x ys))" by simp
  moreover have "sum_list (map f ys) = f x + sum_list (map f (remove1 x ys))"
    using x by (rule sum_list_map_remove1)
  ultimately show ?case by simp
qed

lemma sum_list_less:
  fixes f g :: "'a \<Rightarrow> nat"
  assumes "\<forall>x\<in>set xs. f x \<le> g x" "\<exists>x\<in>set xs. f x < g x"
  shows "sum_list (map f xs) < sum_list (map g xs)"
  using assms
proof (induction xs)
  case Nil
  then show ?case by simp
next
  case (Cons x xs)
  have le: "sum_list (map f xs) \<le> sum_list (map g xs)"
    using Cons.prems(1) by (intro sum_list_mono) simp
  show ?case
  proof (cases "f x < g x")
    case True
    with le show ?thesis by simp
  next
    case False
    with Cons.prems have "\<exists>x\<in>set xs. f x < g x" "f x \<le> g x" "\<forall>x\<in>set xs. f x \<le> g x" by auto
    with Cons.IH show ?thesis by simp
  qed
qed

lemma partitioned_distinct_concat:
  assumes p: "partitioned out" shows "distinct (concat out)"
proof (rule distinct_concat)
  show "distinct out"
  proof (subst distinct_conv_nth, intro allI impI)
    fix i j assume ij: "i < length out" "j < length out" "i \<noteq> j"
    then have d: "set (out ! i) \<inter> set (out ! j) = {}" using p by (simp add: partitioned_def)
    have "out ! i \<in> set out" using ij(1) by simp
    then have "2 \<le> length (out ! i)" using p by (simp add: partitioned_def)
    then have "set (out ! i) \<noteq> {}" by auto
    with d have "set (out ! i) \<noteq> set (out ! j)" by auto
    then show "out ! i \<noteq> out ! j" by auto
  qed
  show "\<And>ys. ys \<in> set out \<Longrightarrow> distinct ys" using p by (simp add: partitioned_def)
  show "\<And>ys zs. ys \<in> set out \<Longrightarrow> zs \<in> set out \<Longrightarrow> ys \<noteq> zs \<Longrightarrow> set ys \<inter> set zs = {}"
  proof -
    fix ys zs assume a: "ys \<in> set out" "zs \<in> set out" "ys \<noteq> zs"
    show "set ys \<inter> set zs = {}"
    proof (rule ccontr)
      assume "set ys \<inter> set zs \<noteq> {}"
      then obtain c where "c \<in> set ys" "c \<in> set zs" by auto
      from partitioned_same_line[OF p a(1,2) this] a(3) show False by simp
    qed
  qed
qed

lemma unstable_line_rewritten:
  assumes p: "partitioned out"
    and words: "\<forall>l\<in>set out. \<forall>w\<in>set l. sep \<notin> set w \<and> CHR 0x0A \<notin> set w \<and> (\<forall>c\<in>set w. lower_char c = c)"
    and sep: "lower_char sep = sep" "sep \<noteq> CHR 0x0A"
    and un: "\<exists>l\<in>set out. strip (join sep l) \<noteq> join sep l"
    and p2: "partitioned out2"
    and e2: "(edges out2)\<^sup>+ = (edges (parse_lines sep (readlines (write_lines sep out))))\<^sup>+"
  shows "write_lines sep out2 \<noteq> write_lines sep out"
proof
  assume eq: "write_lines sep out2 = write_lines sep out"
  let ?parsed = "parse_lines sep (readlines (write_lines sep out))"
  have pw: "?parsed = map (\<lambda>l. split sep (strip (join sep l))) out"
    using parse_of_written[OF words sep] .
  have ne: "\<forall>l\<in>set out. l \<noteq> []" using p by (auto simp: partitioned_def)
  have s2: "tokens_size ?parsed = sum_list (map (\<lambda>l. length (strip (join sep l)) + 1) out)"
    unfolding pw tokens_size_lines by (simp add: comp_def split_sizes)
  have "map (\<lambda>l. length (concat l) + length l) out = map (\<lambda>l. length (join sep l) + 1) out"
  proof (rule map_cong[OF refl])
    fix l assume "l \<in> set out"
    with ne have "l \<noteq> []" by simp
    then show "length (concat l) + length l = length (join sep l) + 1" by (rule join_sizes)
  qed
  then have s1: "tokens_size out = sum_list (map (\<lambda>l. length (join sep l) + 1) out)"
    unfolding tokens_size_lines by (rule arg_cong)
  have less: "tokens_size ?parsed < tokens_size out"
    unfolding s1 s2
  proof (rule sum_list_less)
    show "\<forall>l\<in>set out. length (strip (join sep l)) + 1 \<le> length (join sep l) + 1"
      using length_strip by simp
    from un obtain l where "l \<in> set out" "strip (join sep l) \<noteq> join sep l" by auto
    then show "\<exists>l\<in>set out. length (strip (join sep l)) + 1 < length (join sep l) + 1"
      using strip_shorter by (intro bexI[of _ l]) auto
  qed
  have from_parsed: "\<And>l w. l \<in> set out2 \<Longrightarrow> w \<in> set l \<Longrightarrow> \<exists>ws\<in>set ?parsed. w \<in> set ws"
    using output_words_parsed[OF p2 e2] by blast
  have clean2: "\<forall>l\<in>set out2. l \<noteq> [] \<and> (\<forall>w\<in>set l. sep \<notin> set w \<and> CHR 0x0A \<notin> set w)"
  proof (intro ballI conjI)
    fix l assume l: "l \<in> set out2"
    show "l \<noteq> []" using p2 l by (auto simp: partitioned_def)
    fix w assume "w \<in> set l"
    from from_parsed[OF l this] obtain ws where "ws \<in> set ?parsed" "w \<in> set ws" by auto
    from parse_words[OF this] show "sep \<notin> set w" "CHR 0x0A \<notin> set w" by auto
  qed
  have clean1: "\<forall>l\<in>set out. l \<noteq> [] \<and> (\<forall>w\<in>set l. sep \<notin> set w \<and> CHR 0x0A \<notin> set w)"
    using ne words by auto
  have same: "out2 = out" using write_lines_inj[OF clean2 clean1 sep(2) eq] .
  have "set (concat out) \<subseteq> set (concat ?parsed)"
  proof
    fix w assume "w \<in> set (concat out)"
    then obtain l where "l \<in> set out2" "w \<in> set l" unfolding same by auto
    from from_parsed[OF this] show "w \<in> set (concat ?parsed)" by auto
  qed
  with partitioned_distinct_concat[OF p] have "tokens_size out \<le> tokens_size ?parsed"
    unfolding tokens_size_def by (rule sum_list_distinct_subset)
  with less show False by simp
qed

section \<open>The whole function\<close>

lemma group_synonyms_run:
  assumes "files filename = Some text" "separator_of filename = Some sep"
    "merge_loop ord (parse_lines sep (readlines text)) = Some (Inr out)"
  shows "group_synonyms ord filename files = Some (Inr (files(filename \<mapsto> write_lines sep out)))"
  using assms by (simp add: group_synonyms_def)

lemma group_synonyms_cases:
  assumes so: "set_order ord"
  shows "(files filename = None \<and> group_synonyms ord filename files = Some (Inl FileNotFoundError)) \<or>
         (files filename \<noteq> None \<and> separator_of filename = None \<and>
            group_synonyms ord filename files = Some (Inl UnsupportedFormatError)) \<or>
         (\<exists>contents separator out. files filename = Some contents \<and>
            separator_of filename = Some separator \<and>
            merge_loop ord (parse_lines separator (readlines contents)) = Some (Inr out) \<and>
            partitioned out \<and>
            (edges out)\<^sup>+ = (edges (parse_lines separator (readlines contents)))\<^sup>+ \<and>
            group_synonyms ord filename files =
              Some (Inr (files(filename \<mapsto> write_lines separator out))))"
proof (cases "files filename")
  case None
  then show ?thesis by (simp add: group_synonyms_def)
next
  case (Some contents)
  show ?thesis
  proof (cases "separator_of filename")
    case None
    with Some show ?thesis by (simp add: group_synonyms_def)
  next
    case (Some separator)
    from consolidation[OF so, of "parse_lines separator (readlines contents)"] obtain out where
      r: "merge_loop ord (parse_lines separator (readlines contents)) = Some (Inr out)"
         "(edges out)\<^sup>+ = (edges (parse_lines separator (readlines contents)))\<^sup>+" "partitioned out"
      by blast
    from group_synonyms_run[of files filename contents separator ord out] \<open>files filename = Some contents\<close> Some r(1)
    have "group_synonyms ord filename files = Some (Inr (files(filename \<mapsto> write_lines separator out)))"
      by simp
    with \<open>files filename = Some contents\<close> Some r show ?thesis by blast
  qed
qed

subsection \<open>Runs on the example files\<close>

text \<open>The list a run returns, put in place of the list a theorem speaks of.\<close>

lemma pin_result: "\<exists>x. r = Some (Inr x) \<and> Q x \<Longrightarrow> r = Some (Inr a) \<Longrightarrow> Q a"
  by auto

lemma set_order_remdups: "set_order remdups"
  by (simp add: set_order_def)

lemma set_order_rev_remdups: "set_order (\<lambda>xs. rev (remdups xs))"
  by (simp add: set_order_def)

lemmas run_simps = merge_loop.simps one_pass_def for_loop.simps loop_body_def
  substitute_synonyms_def pop_def Let_def

lemma ex_parse: "parse_lines (CHR '','') (readlines example_text) =
   [[''cat'', ''feline''], [''dog'', ''canine''], [''feline'', ''animal'']]"
  by (simp add: example_text_def parse_lines_def strip_def isspace_def lower_def lower_char_def)

lemma ex_merge: "merge_loop remdups [[''cat'', ''feline''], [''dog'', ''canine''], [''feline'', ''animal'']]
   = Some (Inr [[''cat'', ''feline'', ''animal''], [''dog'', ''canine'']])"
  by (simp add: run_simps)

lemma ex_write: "write_lines (CHR '','') [[''cat'', ''feline'', ''animal''], [''dog'', ''canine'']]
  = ''cat,feline,animal\<newline>dog,canine\<newline>''"
  by (simp add: write_lines_def)

lemma ex_sep: "separator_of ''synonyms.csv'' = Some (CHR '','')"
  by (simp add: separator_of_def endswith_def)

lemma duplicate_parse: "parse_lines (CHR '','') (readlines duplicate_text) =
   [[''big'', ''large''], [''big'', ''large'']]"
  by (simp add: duplicate_text_def parse_lines_def strip_def isspace_def lower_def lower_char_def)

lemma duplicate_merge: "merge_loop remdups [[''big'', ''large''], [''big'', ''large'']]
   = Some (Inr [[''big'', ''large'']])"
  by (simp add: run_simps)

lemma lonely_parse: "parse_lines (CHR '','') (readlines lonely_text) =
   [[''lonely''], [''big'', ''large''], [''solo'', ''solo'']]"
  by (simp add: lonely_text_def parse_lines_def strip_def isspace_def lower_def lower_char_def)

lemma lonely_merge: "merge_loop remdups [[''lonely''], [''big'', ''large''], [''solo'', ''solo'']]
   = Some (Inr [[''big'', ''large'']])"
  by (simp add: run_simps)

section \<open>The claims\<close>


subsection \<open>C1: the output lines are the connected components\<close>

text \<open>
  C1. Whenever the file can be read and its name has one of the two extensions,
  \<open>group_synonyms\<close> returns, and the lines it writes are the connected components of
  the parsed lines that have two distinct words or more: two different words stand in
  one output line if and only if a chain of input lines links them, every output line
  holds each of its words once and holds two words or more, every output line is the set
  of the words chained to any one of its words, and no two output lines share a word.
\<close>

theorem group_synonyms_connected_components:
  fixes contents :: string and separator :: char
  defines "ls \<equiv> parse_lines separator (readlines contents)"
  assumes "set_order ord" "files filename = Some contents" "separator_of filename = Some separator"
  shows "\<exists>out. merge_loop ord ls = Some (Inr out) \<and>
           group_synonyms ord filename files =
             Some (Inr (files(filename \<mapsto> write_lines separator out))) \<and>
           (\<forall>a b. a \<noteq> b \<longrightarrow> ((\<exists>l\<in>set out. a \<in> set l \<and> b \<in> set l) \<longleftrightarrow> chained ls a b)) \<and>
           (\<forall>l\<in>set out. distinct l \<and> 2 \<le> length l \<and> (\<forall>a\<in>set l. set l = {b. chained ls a b})) \<and>
           (\<forall>i<length out. \<forall>j<length out. i \<noteq> j \<longrightarrow> set (out ! i) \<inter> set (out ! j) = {})"
proof -
  from consolidation[OF assms(2), of ls] obtain out where
    r: "merge_loop ord ls = Some (Inr out)" "(edges out)\<^sup>+ = (edges ls)\<^sup>+" "partitioned out"
    by blast
  have g: "group_synonyms ord filename files =
             Some (Inr (files(filename \<mapsto> write_lines separator out)))"
    using group_synonyms_run[of files filename contents separator ord out] assms(3,4) r(1)
    unfolding ls_def by simp
  have 1: "\<forall>a b. a \<noteq> b \<longrightarrow> ((\<exists>l\<in>set out. a \<in> set l \<and> b \<in> set l) \<longleftrightarrow> chained ls a b)"
    using together_iff_chained[OF r(3,2)] by blast
  have 2: "\<forall>l\<in>set out. distinct l \<and> 2 \<le> length l \<and> (\<forall>a\<in>set l. set l = {b. chained ls a b})"
    using r(3) line_is_component[OF r(3,2)] by (simp add: partitioned_def)
  have 3: "\<forall>i<length out. \<forall>j<length out. i \<noteq> j \<longrightarrow> set (out ! i) \<inter> set (out ! j) = {}"
    using r(3) by (simp add: partitioned_def)
  from r(1) g 1 2 3 show ?thesis by blast
qed

text \<open>The file of the three lines \<open>cat,feline\<close>, \<open>dog,canine\<close>, \<open>feline,animal\<close>.\<close>

theorem group_synonyms_connected_components_witness:
  "set_order remdups \<and>
   [''synonyms.csv'' \<mapsto> example_text] ''synonyms.csv'' = Some example_text \<and>
   separator_of ''synonyms.csv'' = Some (CHR '','') \<and>
   group_synonyms remdups ''synonyms.csv'' [''synonyms.csv'' \<mapsto> example_text] =
     Some (Inr [''synonyms.csv'' \<mapsto> ''cat,feline,animal\<newline>dog,canine\<newline>'']) \<and>
   chained (parse_lines (CHR '','') (readlines example_text)) ''cat'' ''animal'' \<and>
   \<not> chained (parse_lines (CHR '','') (readlines example_text)) ''cat'' ''dog''"
proof -
  let ?files = "[''synonyms.csv'' \<mapsto> example_text]"
  let ?ls = "parse_lines (CHR '','') (readlines example_text)"
  have h1: "set_order remdups" by (rule set_order_remdups)
  have h2: "?files ''synonyms.csv'' = Some example_text" by simp
  have h3: "separator_of ''synonyms.csv'' = Some (CHR '','')" by (rule ex_sep)
  from group_synonyms_connected_components[of remdups ?files "''synonyms.csv''" example_text
      "CHR '',''", OF h1 h2 h3] obtain out where
    o: "merge_loop remdups ?ls = Some (Inr out)"
       "group_synonyms remdups ''synonyms.csv'' ?files =
          Some (Inr (?files(''synonyms.csv'' \<mapsto> write_lines (CHR '','') out)))"
       "\<forall>a b. a \<noteq> b \<longrightarrow> ((\<exists>l\<in>set out. a \<in> set l \<and> b \<in> set l) \<longleftrightarrow> chained ?ls a b)"
    by blast
  have out: "out = [[''cat'', ''feline'', ''animal''], [''dog'', ''canine'']]"
    using o(1) by (simp add: ex_parse ex_merge)
  have g: "group_synonyms remdups ''synonyms.csv'' ?files =
     Some (Inr [''synonyms.csv'' \<mapsto> ''cat,feline,animal\<newline>dog,canine\<newline>''])"
    using o(2) unfolding out ex_write by simp
  have c1: "chained ?ls ''cat'' ''animal''"
    using o(3)[rule_format, of "''cat''" "''animal''"] unfolding out by simp
  have c2: "\<not> chained ?ls ''cat'' ''dog''"
    using o(3)[rule_format, of "''cat''" "''dog''"] unfolding out by simp
  from h1 h2 h3 g c1 c2 show ?thesis by blast
qed

subsection \<open>C2: the output is a partition\<close>

text \<open>
  C2. Whenever the file can be read and its name has one of the two extensions, the
  lines \<open>group_synonyms\<close> writes hold two distinct words or more each, and no word
  stands in two of them.
\<close>

theorem group_synonyms_output_partitioned:
  fixes contents :: string and separator :: char
  defines "ls \<equiv> parse_lines separator (readlines contents)"
  assumes "set_order ord" "files filename = Some contents" "separator_of filename = Some separator"
  shows "\<exists>out. merge_loop ord ls = Some (Inr out) \<and>
           group_synonyms ord filename files =
             Some (Inr (files(filename \<mapsto> write_lines separator out))) \<and>
           (\<forall>l\<in>set out. 2 \<le> card (set l)) \<and>
           (\<forall>i<length out. \<forall>j<length out. i \<noteq> j \<longrightarrow> set (out ! i) \<inter> set (out ! j) = {})"
proof -
  from consolidation[OF assms(2), of ls] obtain out where
    r: "merge_loop ord ls = Some (Inr out)" "partitioned out"
    by blast
  have g: "group_synonyms ord filename files =
             Some (Inr (files(filename \<mapsto> write_lines separator out)))"
    using group_synonyms_run[of files filename contents separator ord out] assms(3,4) r(1)
    unfolding ls_def by simp
  have 1: "\<forall>l\<in>set out. 2 \<le> card (set l)"
    using r(2) by (auto simp: partitioned_def distinct_card)
  have 2: "\<forall>i<length out. \<forall>j<length out. i \<noteq> j \<longrightarrow> set (out ! i) \<inter> set (out ! j) = {}"
    using r(2) by (simp add: partitioned_def)
  from r(1) g 1 2 show ?thesis by blast
qed

text \<open>The file of two equal lines: one line of two words is written.\<close>

theorem group_synonyms_output_partitioned_witness:
  "set_order remdups \<and>
   [''synonyms.csv'' \<mapsto> duplicate_text] ''synonyms.csv'' = Some duplicate_text \<and>
   separator_of ''synonyms.csv'' = Some (CHR '','') \<and>
   group_synonyms remdups ''synonyms.csv'' [''synonyms.csv'' \<mapsto> duplicate_text] =
     Some (Inr [''synonyms.csv'' \<mapsto> ''big,large\<newline>'']) \<and>
   2 \<le> card (set [''big'', ''large''])"
proof -
  let ?files = "[''synonyms.csv'' \<mapsto> duplicate_text]"
  let ?ls = "parse_lines (CHR '','') (readlines duplicate_text)"
  have h1: "set_order remdups" by (rule set_order_remdups)
  have h2: "?files ''synonyms.csv'' = Some duplicate_text" by simp
  have h3: "separator_of ''synonyms.csv'' = Some (CHR '','')" by (rule ex_sep)
  from group_synonyms_output_partitioned[of remdups ?files "''synonyms.csv''" duplicate_text
      "CHR '',''", OF h1 h2 h3] obtain out where
    o: "merge_loop remdups ?ls = Some (Inr out)"
       "group_synonyms remdups ''synonyms.csv'' ?files =
          Some (Inr (?files(''synonyms.csv'' \<mapsto> write_lines (CHR '','') out)))"
       "\<forall>l\<in>set out. 2 \<le> card (set l)"
    by blast
  have out: "out = [[''big'', ''large'']]"
    using o(1) by (simp add: duplicate_parse duplicate_merge)
  have g: "group_synonyms remdups ''synonyms.csv'' ?files =
     Some (Inr [''synonyms.csv'' \<mapsto> ''big,large\<newline>''])"
    using o(2) unfolding out by (simp add: write_lines_def)
  have c: "2 \<le> card (set [''big'', ''large''])" using o(3) unfolding out by simp
  from h1 h2 h3 g c show ?thesis by blast
qed

subsection \<open>C3: the merge target is an earlier line\<close>

text \<open>
  C3. In every state the loops reach, with any list of lines to start from: the body
  of the \<open>for\<close> loop raises nothing; and when the scan of the current line stops at a
  word that is already processed, the search of \<open>substitute_synonyms\<close> ends at a line
  before the current one, the first line of the list that holds the word, so the words
  of the current line are appended to that other line before the current line is
  emptied. The whole loop returns a list, never the exception.
\<close>

theorem merge_target_is_an_earlier_line:
  fixes st :: pass_state and ord :: "string list \<Rightarrow> string list"
  defines "i \<equiv> index st"
  defines "line \<equiv> ord (synonymsByLine st ! index st)"
  defines "ls1 \<equiv> (synonymsByLine st)[index st := ord (synonymsByLine st ! index st)]"
  assumes "set_order ord" "reachable ord ls st" "index st < length (synonymsByLine st)"
  shows "(\<forall>e. loop_body ord st \<noteq> Inl e) \<and>
         (\<exists>out. merge_loop ord ls = Some (Inr out)) \<and>
         (\<forall>w P. 2 \<le> length (synonymsByLine st ! i) \<and> scan line (processedSynonyms st) = (Some w, P) \<longrightarrow>
            (\<exists>j<i. first_line_with w ls1 0 = Some j \<and>
                    w \<in> set (synonymsByLine st ! j) \<and> (\<forall>m<j. w \<notin> set (synonymsByLine st ! m)) \<and>
                    substitute_synonyms w line i ls1 =
                      Inr ((synonymsByLine st)[j := synonymsByLine st ! j @ line, i := []])))"
proof -
  have pl: "processed_located st" using reachable_processed_located[OF assms(4,5)] .
  have 1: "\<forall>e. loop_body ord st \<noteq> Inl e"
    using loop_body_returns[OF assms(4) pl assms(6)] by auto
  have 2: "\<exists>out. merge_loop ord ls = Some (Inr out)"
    using consolidation[OF assms(4), of ls] by blast
  have 3: "\<forall>w P. 2 \<le> length (synonymsByLine st ! i) \<and> scan line (processedSynonyms st) = (Some w, P) \<longrightarrow>
            (\<exists>j<i. first_line_with w ls1 0 = Some j \<and>
                    w \<in> set (synonymsByLine st ! j) \<and> (\<forall>m<j. w \<notin> set (synonymsByLine st ! m)) \<and>
                    substitute_synonyms w line i ls1 =
                      Inr ((synonymsByLine st)[j := synonymsByLine st ! j @ line, i := []]))"
    unfolding i_def line_def ls1_def using merge_target[OF assms(4) pl assms(6)] by blast
  from 1 2 3 show ?thesis by blast
qed

text \<open>The lines \<open>a,b\<close> and \<open>b,c\<close>, in the state after the first line.\<close>

theorem merge_target_is_an_earlier_line_witness:
  "set_order remdups \<and>
   reachable remdups [[''a'', ''b''], [''b'', ''c'']]
     \<lparr>synonymsByLine = [[''a'', ''b''], [''b'', ''c'']], index = 1,
      processedSynonyms = {''a'', ''b''}, changes = False\<rparr> \<and>
   scan (remdups [''b'', ''c'']) {''a'', ''b''} = (Some ''b'', {''a'', ''b''}) \<and>
   first_line_with ''b'' [[''a'', ''b''], [''b'', ''c'']] 0 = Some 0 \<and>
   substitute_synonyms ''b'' [''b'', ''c''] 1 [[''a'', ''b''], [''b'', ''c'']] =
     Inr [[''a'', ''b'', ''b'', ''c''], []] \<and>
   (\<exists>out. merge_loop remdups [[''a'', ''b''], [''b'', ''c'']] = Some (Inr out))"
proof -
  let ?ls = "[[''a'', ''b''], [''b'', ''c'']]"
  let ?st = "\<lparr>synonymsByLine = ?ls, index = 1, processedSynonyms = {''a'', ''b''}, changes = False\<rparr>"
  have h1: "set_order remdups" by (rule set_order_remdups)
  have b: "loop_body remdups (initial ?ls) = Inr ?st"
    by (simp add: initial_def loop_body_def Let_def insert_commute)
  have h2: "reachable remdups ?ls ?st"
    by (rule reachable.turn[OF reachable.start _ b]) (simp add: initial_def)
  have h3: "index ?st < length (synonymsByLine ?st)" by simp
  note t = merge_target_is_an_earlier_line[OF h1 h2 h3]
  have s: "scan (remdups [''b'', ''c'']) {''a'', ''b''} = (Some ''b'', {''a'', ''b''})" by simp
  have f: "first_line_with ''b'' ?ls 0 = Some 0" by simp
  have u: "substitute_synonyms ''b'' [''b'', ''c''] 1 ?ls = Inr [[''a'', ''b'', ''b'', ''c''], []]"
    by (simp add: substitute_synonyms_def)
  from t have "\<exists>out. merge_loop remdups ?ls = Some (Inr out)" by blast
  with h1 h2 s f u show ?thesis by blast
qed

subsection \<open>C4: the passes end\<close>

text \<open>
  C4. Whenever the file can be read and its name has one of the two extensions, the
  loop \<open>while changes\<close> ends: after a number of passes that reported a change, a
  number bounded by the weight of the parsed lines, a pass reports no change, and
  its list is what the loop returns and \<open>group_synonyms\<close> writes.
\<close>

theorem merge_loop_terminates:
  fixes contents :: string and separator :: char
  defines "ls \<equiv> parse_lines separator (readlines contents)"
  assumes "set_order ord" "files filename = Some contents" "separator_of filename = Some separator"
  shows "\<exists>n pre out. n \<le> weight ls \<and> after_passes ord n ls = Some pre \<and>
           one_pass ord pre = Inr (out, False) \<and>
           merge_loop ord ls = Some (Inr out) \<and>
           group_synonyms ord filename files =
             Some (Inr (files(filename \<mapsto> write_lines separator out)))"
proof -
  from consolidation[OF assms(2), of ls] obtain n pre out where
    r: "merge_loop ord ls = Some (Inr out)" "after_passes ord n ls = Some pre" "n \<le> weight ls"
       "one_pass ord pre = Inr (out, False)"
    by blast
  have g: "group_synonyms ord filename files =
             Some (Inr (files(filename \<mapsto> write_lines separator out)))"
    using group_synonyms_run[of files filename contents separator ord out] assms(3,4) r(1)
    unfolding ls_def by simp
  from r g show ?thesis by blast
qed

text \<open>The file of the three lines of C1: two passes report a change, the third reports none.\<close>

theorem merge_loop_terminates_witness:
  "set_order remdups \<and>
   [''synonyms.csv'' \<mapsto> example_text] ''synonyms.csv'' = Some example_text \<and>
   separator_of ''synonyms.csv'' = Some (CHR '','') \<and>
   (\<exists>n pre out. n \<le> weight (parse_lines (CHR '','') (readlines example_text)) \<and>
      after_passes remdups n (parse_lines (CHR '','') (readlines example_text)) = Some pre \<and>
      one_pass remdups pre = Inr (out, False) \<and>
      merge_loop remdups (parse_lines (CHR '','') (readlines example_text)) = Some (Inr out) \<and>
      group_synonyms remdups ''synonyms.csv'' [''synonyms.csv'' \<mapsto> example_text] =
        Some (Inr ([''synonyms.csv'' \<mapsto> example_text]
                    (''synonyms.csv'' \<mapsto> write_lines (CHR '','') out)))) \<and>
   after_passes remdups 2 (parse_lines (CHR '','') (readlines example_text)) =
     Some [[''cat'', ''feline'', ''animal''], [''dog'', ''canine'']] \<and>
   one_pass remdups [[''cat'', ''feline'', ''animal''], [''dog'', ''canine'']] =
     Inr ([[''cat'', ''feline'', ''animal''], [''dog'', ''canine'']], False)"
proof -
  let ?files = "[''synonyms.csv'' \<mapsto> example_text]"
  have h1: "set_order remdups" by (rule set_order_remdups)
  have h2: "?files ''synonyms.csv'' = Some example_text" by simp
  have h3: "separator_of ''synonyms.csv'' = Some (CHR '','')" by (rule ex_sep)
  note t = merge_loop_terminates[of remdups ?files "''synonyms.csv''" example_text
      "CHR '',''", OF h1 h2 h3]
  have a: "after_passes remdups 2 (parse_lines (CHR '','') (readlines example_text)) =
     Some [[''cat'', ''feline'', ''animal''], [''dog'', ''canine'']]"
    unfolding ex_parse by (simp add: numeral_2_eq_2 run_simps)
  have b: "one_pass remdups [[''cat'', ''feline'', ''animal''], [''dog'', ''canine'']] =
     Inr ([[''cat'', ''feline'', ''animal''], [''dog'', ''canine'']], False)"
    by (simp add: run_simps)
  from h1 h2 h3 t a b show ?thesis by blast
qed

subsection \<open>C5: a second run\<close>

text \<open>
  C5, as the code has it. A second run on the file the first run wrote, under any order
  of set iteration. When no line of the first output begins or ends with white space,
  the second run keeps the lines and their order and gives every line the same set of
  words, listed in the order of the second run; when that order leaves the lines as
  they are, the file is written again unchanged. When some line of the first output
  begins or ends with white space, the second run returns too, and the file it writes
  is not the file the first run wrote.
\<close>

theorem group_synonyms_twice:
  fixes contents :: string and separator :: char
  defines "ls \<equiv> parse_lines separator (readlines contents)"
  assumes "set_order ord" "set_order ord'"
    and "files filename = Some contents" "separator_of filename = Some separator"
  shows "\<exists>out. merge_loop ord ls = Some (Inr out) \<and>
           group_synonyms ord filename files =
             Some (Inr (files(filename \<mapsto> write_lines separator out))) \<and>
           ((\<forall>l\<in>set out. strip (join separator l) = join separator l) \<longrightarrow>
              group_synonyms ord' filename (files(filename \<mapsto> write_lines separator out)) =
                Some (Inr (files(filename \<mapsto> write_lines separator (map ord' out)))) \<and>
              map set (map ord' out) = map set out \<and>
              ((\<forall>l\<in>set out. ord' l = l) \<longrightarrow>
                 group_synonyms ord' filename (files(filename \<mapsto> write_lines separator out)) =
                   Some (Inr (files(filename \<mapsto> write_lines separator out))))) \<and>
           ((\<exists>l\<in>set out. strip (join separator l) \<noteq> join separator l) \<longrightarrow>
              (\<exists>out2. merge_loop ord' (parse_lines separator (readlines (write_lines separator out))) =
                         Some (Inr out2) \<and>
                 group_synonyms ord' filename (files(filename \<mapsto> write_lines separator out)) =
                   Some (Inr (files(filename \<mapsto> write_lines separator out2))) \<and>
                 write_lines separator out2 \<noteq> write_lines separator out))"
proof -
  from consolidation[OF assms(2), of ls] obtain out where
    r: "merge_loop ord ls = Some (Inr out)" "(edges out)\<^sup>+ = (edges ls)\<^sup>+" "partitioned out"
    by blast
  have g: "group_synonyms ord filename files =
             Some (Inr (files(filename \<mapsto> write_lines separator out)))"
    using group_synonyms_run[of files filename contents separator ord out] assms(4,5) r(1)
    unfolding ls_def by simp
  let ?files1 = "files(filename \<mapsto> write_lines separator out)"
  let ?ls2 = "parse_lines separator (readlines (write_lines separator out))"
  have ne: "\<forall>l\<in>set out. l \<noteq> []" using r(3) by (auto simp: partitioned_def)
  have words: "\<forall>l\<in>set out. \<forall>w\<in>set l. separator \<notin> set w \<and> CHR 0x0A \<notin> set w \<and>
                  (\<forall>c\<in>set w. lower_char c = c)"
  proof (intro ballI)
    fix l w assume "l \<in> set out" "w \<in> set l"
    from output_words_parsed[OF r(3,2) this] obtain ws where "ws \<in> set ls" "w \<in> set ws" by auto
    then show "separator \<notin> set w \<and> CHR 0x0A \<notin> set w \<and> (\<forall>c\<in>set w. lower_char c = c)"
      unfolding ls_def by (rule parse_words)
  qed
  note sf = separator_fixed[OF assms(5)]
  have f1: "?files1 filename = Some (write_lines separator out)" by simp
  have second: "group_synonyms ord' filename ?files1 =
                  Some (Inr (files(filename \<mapsto> write_lines separator (map ord' out)))) \<and>
                map set (map ord' out) = map set out \<and>
                ((\<forall>l\<in>set out. ord' l = l) \<longrightarrow>
                   group_synonyms ord' filename ?files1 = Some (Inr ?files1))"
    if stable: "\<forall>l\<in>set out. strip (join separator l) = join separator l"
  proof -
    have pw: "?ls2 = out"
      using parse_written[OF ne words _ _ stable] sf by simp
    have m: "merge_loop ord' out = Some (Inr (map ord' out))"
      using merge_loop_partitioned_input[OF assms(3) r(3)] .
    have "group_synonyms ord' filename ?files1 =
            Some (Inr (?files1(filename \<mapsto> write_lines separator (map ord' out))))"
      using group_synonyms_run[of ?files1 filename "write_lines separator out" separator ord'
          "map ord' out"] f1 assms(5) m pw by simp
    then have a: "group_synonyms ord' filename ?files1 =
            Some (Inr (files(filename \<mapsto> write_lines separator (map ord' out))))" by simp
    have b: "map set (map ord' out) = map set out" using assms(3) by (simp add: set_order_def)
    have c: "group_synonyms ord' filename ?files1 = Some (Inr ?files1)"
      if "\<forall>l\<in>set out. ord' l = l"
    proof -
      from that have "map ord' out = out" by (simp add: map_idI)
      with a show ?thesis by simp
    qed
    from a b c show ?thesis by blast
  qed
  have changed: "\<exists>out2. merge_loop ord' ?ls2 = Some (Inr out2) \<and>
                 group_synonyms ord' filename ?files1 =
                   Some (Inr (files(filename \<mapsto> write_lines separator out2))) \<and>
                 write_lines separator out2 \<noteq> write_lines separator out"
    if un: "\<exists>l\<in>set out. strip (join separator l) \<noteq> join separator l"
  proof -
    from consolidation[OF assms(3), of ?ls2] obtain out2 where
      r2: "merge_loop ord' ?ls2 = Some (Inr out2)" "(edges out2)\<^sup>+ = (edges ?ls2)\<^sup>+"
          "partitioned out2" by blast
    have "group_synonyms ord' filename ?files1 =
            Some (Inr (?files1(filename \<mapsto> write_lines separator out2)))"
      using group_synonyms_run[of ?files1 filename "write_lines separator out" separator ord' out2]
        f1 assms(5) r2(1) by simp
    then have a: "group_synonyms ord' filename ?files1 =
            Some (Inr (files(filename \<mapsto> write_lines separator out2)))" by simp
    have b: "write_lines separator out2 \<noteq> write_lines separator out"
      using unstable_line_rewritten[OF r(3) words sf[THEN conjunct1] sf[THEN conjunct2] un r2(3,2)] .
    from r2(1) a b show ?thesis by blast
  qed
  from second have second': "(\<forall>l\<in>set out. strip (join separator l) = join separator l) \<longrightarrow>
              group_synonyms ord' filename ?files1 =
                Some (Inr (files(filename \<mapsto> write_lines separator (map ord' out)))) \<and>
              map set (map ord' out) = map set out \<and>
              ((\<forall>l\<in>set out. ord' l = l) \<longrightarrow>
                 group_synonyms ord' filename ?files1 = Some (Inr ?files1))" by (rule impI)
  from changed have changed': "(\<exists>l\<in>set out. strip (join separator l) \<noteq> join separator l) \<longrightarrow>
              (\<exists>out2. merge_loop ord' ?ls2 = Some (Inr out2) \<and>
                 group_synonyms ord' filename ?files1 =
                   Some (Inr (files(filename \<mapsto> write_lines separator out2))) \<and>
                 write_lines separator out2 \<noteq> write_lines separator out)" by (rule impI)
  show ?thesis
    by (rule exI[of _ out], intro conjI) (fact r(1) g second' changed')+
qed

text \<open>
  The file of the three lines of C1, of which no output line begins or ends with white
  space: the second run writes the file of the first again. And the line \<open>a, x ,a\<close>,
  whose output line \<open> x ,a\<close> begins with a blank: the second run writes another file.
\<close>

theorem group_synonyms_twice_witness:
  "set_order remdups \<and>
   [''synonyms.csv'' \<mapsto> example_text] ''synonyms.csv'' = Some example_text \<and>
   separator_of ''synonyms.csv'' = Some (CHR '','') \<and>
   strip ''cat,feline,animal'' = ''cat,feline,animal'' \<and> strip ''dog,canine'' = ''dog,canine'' \<and>
   group_synonyms remdups ''synonyms.csv'' [''synonyms.csv'' \<mapsto> example_text] =
     Some (Inr [''synonyms.csv'' \<mapsto> ''cat,feline,animal\<newline>dog,canine\<newline>'']) \<and>
   group_synonyms remdups ''synonyms.csv''
       [''synonyms.csv'' \<mapsto> ''cat,feline,animal\<newline>dog,canine\<newline>''] =
     Some (Inr [''synonyms.csv'' \<mapsto> ''cat,feline,animal\<newline>dog,canine\<newline>'']) \<and>
   [''synonyms.csv'' \<mapsto> padded_text] ''synonyms.csv'' = Some padded_text \<and>
   strip '' x ,a'' \<noteq> '' x ,a'' \<and>
   group_synonyms remdups ''synonyms.csv'' [''synonyms.csv'' \<mapsto> padded_text] =
     Some (Inr [''synonyms.csv'' \<mapsto> '' x ,a\<newline>'']) \<and>
   group_synonyms remdups ''synonyms.csv'' [''synonyms.csv'' \<mapsto> '' x ,a\<newline>''] \<noteq>
     Some (Inr [''synonyms.csv'' \<mapsto> '' x ,a\<newline>''])"
proof -
  let ?files = "[''synonyms.csv'' \<mapsto> example_text]"
  let ?out = "[[''cat'', ''feline'', ''animal''], [''dog'', ''canine'']]"
  have h1: "set_order remdups" by (rule set_order_remdups)
  have h2: "?files ''synonyms.csv'' = Some example_text" by simp
  have h3: "separator_of ''synonyms.csv'' = Some (CHR '','')" by (rule ex_sep)
  have s: "strip ''cat,feline,animal'' = ''cat,feline,animal''" "strip ''dog,canine'' = ''dog,canine''"
    by (simp_all add: strip_def isspace_def)
  have r: "merge_loop remdups (parse_lines (CHR '','') (readlines example_text)) = Some (Inr ?out)"
    unfolding ex_parse by (rule ex_merge)
  note c = pin_result[OF group_synonyms_twice[of remdups remdups ?files "''synonyms.csv''"
      example_text "CHR '',''", OF h1 h1 h2 h3] r]
  have g1: "group_synonyms remdups ''synonyms.csv'' ?files =
     Some (Inr [''synonyms.csv'' \<mapsto> ''cat,feline,animal\<newline>dog,canine\<newline>''])"
    using c[THEN conjunct1] unfolding ex_write by simp
  have st: "\<forall>l\<in>set ?out. strip (join (CHR '','') l) = join (CHR '','') l" using s by simp
  from c[THEN conjunct2, THEN conjunct1, THEN mp, OF st, THEN conjunct1]
  have g2: "group_synonyms remdups ''synonyms.csv''
       [''synonyms.csv'' \<mapsto> ''cat,feline,animal\<newline>dog,canine\<newline>''] =
     Some (Inr [''synonyms.csv'' \<mapsto> ''cat,feline,animal\<newline>dog,canine\<newline>''])"
    unfolding ex_write by (simp add: write_lines_def)
  let ?pfiles = "[''synonyms.csv'' \<mapsto> padded_text]"
  have k2: "?pfiles ''synonyms.csv'' = Some padded_text" by simp
  have p1: "parse_lines (CHR '','') (readlines padded_text) = [[''a'', '' x '', ''a'']]"
    by (simp add: padded_text_def parse_lines_def strip_def isspace_def lower_def lower_char_def)
  have m1: "merge_loop remdups [[''a'', '' x '', ''a'']] = Some (Inr [['' x '', ''a'']])"
    by (simp add: run_simps)
  have rp: "merge_loop remdups (parse_lines (CHR '','') (readlines padded_text)) = Some (Inr [['' x '', ''a'']])"
    unfolding p1 by (rule m1)
  note d = pin_result[OF group_synonyms_twice[of remdups remdups ?pfiles "''synonyms.csv''"
      padded_text "CHR '',''", OF h1 h1 k2 h3] rp]
  have w: "write_lines (CHR '','') [['' x '', ''a'']] = '' x ,a\<newline>''" by (simp add: write_lines_def)
  have g3: "group_synonyms remdups ''synonyms.csv'' ?pfiles =
     Some (Inr [''synonyms.csv'' \<mapsto> '' x ,a\<newline>''])"
    using d[THEN conjunct1] unfolding w by simp
  have us: "strip '' x ,a'' \<noteq> '' x ,a''" by (simp add: strip_def isspace_def)
  then have un: "\<exists>l\<in>set [['' x '', ''a'']]. strip (join (CHR '','') l) \<noteq> join (CHR '','') l" by simp
  from d[THEN conjunct2, THEN conjunct2, THEN mp, OF un] obtain out2 where
    o2: "group_synonyms remdups ''synonyms.csv'' (?pfiles(''synonyms.csv'' \<mapsto> write_lines (CHR '','') [['' x '', ''a'']])) =
           Some (Inr (?pfiles(''synonyms.csv'' \<mapsto> write_lines (CHR '','') out2)))"
        "write_lines (CHR '','') out2 \<noteq> write_lines (CHR '','') [['' x '', ''a'']]" by blast
  have "group_synonyms remdups ''synonyms.csv'' [''synonyms.csv'' \<mapsto> '' x ,a\<newline>''] =
      Some (Inr [''synonyms.csv'' \<mapsto> write_lines (CHR '','') out2])"
    using o2(1) unfolding w by simp
  moreover have "[''synonyms.csv'' \<mapsto> write_lines (CHR '','') out2] \<noteq> [''synonyms.csv'' \<mapsto> '' x ,a\<newline>'']"
    using o2(2) unfolding w by (metis map_upd_eqD1)
  ultimately have g4: "group_synonyms remdups ''synonyms.csv'' [''synonyms.csv'' \<mapsto> '' x ,a\<newline>''] \<noteq>
     Some (Inr [''synonyms.csv'' \<mapsto> '' x ,a\<newline>''])" by simp
  show ?thesis by (intro conjI) (fact h1 h2 h3 s g1 g2 k2 us g3 g4)+
qed

text \<open>
  C5 as stated fails. On the line \<open>a, x ,a\<close> the first run writes \<open> x ,a\<close>, and the
  second run, which strips the line before it splits it, writes \<open>x ,a\<close>. And under an
  order of set iteration that does not keep a list of distinct words as it is, the
  second run lists the words of \<open>a,b\<close> the other way round.
\<close>

theorem group_synonyms_idempotence_counterexample:
  "group_synonyms remdups ''synonyms.csv'' [''synonyms.csv'' \<mapsto> padded_text] =
     Some (Inr [''synonyms.csv'' \<mapsto> '' x ,a\<newline>'']) \<and>
   group_synonyms remdups ''synonyms.csv'' [''synonyms.csv'' \<mapsto> '' x ,a\<newline>''] =
     Some (Inr [''synonyms.csv'' \<mapsto> ''x ,a\<newline>'']) \<and>
   set_order (\<lambda>xs. rev (remdups xs)) \<and>
   group_synonyms (\<lambda>xs. rev (remdups xs)) ''synonyms.csv'' [''synonyms.csv'' \<mapsto> ''b,a\<newline>''] =
     Some (Inr [''synonyms.csv'' \<mapsto> ''a,b\<newline>'']) \<and>
   group_synonyms (\<lambda>xs. rev (remdups xs)) ''synonyms.csv'' [''synonyms.csv'' \<mapsto> ''a,b\<newline>''] =
     Some (Inr [''synonyms.csv'' \<mapsto> ''b,a\<newline>''])"
proof -
  have p1: "parse_lines (CHR '','') (readlines padded_text) = [[''a'', '' x '', ''a'']]"
    by (simp add: padded_text_def parse_lines_def strip_def isspace_def lower_def lower_char_def)
  have m1: "merge_loop remdups [[''a'', '' x '', ''a'']] = Some (Inr [['' x '', ''a'']])"
    by (simp add: run_simps)
  have g1: "group_synonyms remdups ''synonyms.csv'' [''synonyms.csv'' \<mapsto> padded_text] =
     Some (Inr [''synonyms.csv'' \<mapsto> '' x ,a\<newline>''])"
    by (simp add: group_synonyms_def ex_sep p1 m1 write_lines_def)
  have m2: "merge_loop remdups [[''x '', ''a'']] = Some (Inr [[''x '', ''a'']])"
    by (simp add: run_simps)
  have g2: "group_synonyms remdups ''synonyms.csv'' [''synonyms.csv'' \<mapsto> '' x ,a\<newline>''] =
     Some (Inr [''synonyms.csv'' \<mapsto> ''x ,a\<newline>''])"
    by (simp add: group_synonyms_def ex_sep parse_lines_def strip_def isspace_def lower_def
        lower_char_def m2 write_lines_def)
  have m3: "merge_loop (\<lambda>xs. rev (remdups xs)) [[''b'', ''a'']] = Some (Inr [[''a'', ''b'']])"
    by (simp add: run_simps)
  have g3: "group_synonyms (\<lambda>xs. rev (remdups xs)) ''synonyms.csv'' [''synonyms.csv'' \<mapsto> ''b,a\<newline>''] =
     Some (Inr [''synonyms.csv'' \<mapsto> ''a,b\<newline>''])"
    by (simp add: group_synonyms_def ex_sep parse_lines_def strip_def isspace_def lower_def
        lower_char_def m3 write_lines_def)
  have m4: "merge_loop (\<lambda>xs. rev (remdups xs)) [[''a'', ''b'']] = Some (Inr [[''b'', ''a'']])"
    by (simp add: run_simps)
  have g4: "group_synonyms (\<lambda>xs. rev (remdups xs)) ''synonyms.csv'' [''synonyms.csv'' \<mapsto> ''a,b\<newline>''] =
     Some (Inr [''synonyms.csv'' \<mapsto> ''b,a\<newline>''])"
    by (simp add: group_synonyms_def ex_sep parse_lines_def strip_def isspace_def lower_def
        lower_char_def m4 write_lines_def)
  from g1 g2 set_order_rev_remdups g3 g4 show ?thesis by blast
qed

lemma two_orders:
  assumes "distinct l" "set l = {x, y}" "x \<noteq> y"
  shows "l = [x, y] \<or> l = [y, x]"
proof -
  have "length l = card (set l)" using assms(1) by (simp add: distinct_card)
  then have "length l = 2" using assms(2,3) by simp
  then obtain p q where l: "l = [p, q]"
    by (cases l; cases "tl l") (auto simp: numeral_2_eq_2)
  with assms(2) have "{p, q} = {x, y}" by simp
  then have "(p = x \<and> q = y) \<or> (p = y \<and> q = x)" by (auto simp: doubleton_eq_iff)
  with l show ?thesis by auto
qed

lemma set_order_pair:
  assumes "set_order ord" "set l = {x, y}" "x \<noteq> y"
  shows "ord l = [x, y] \<or> ord l = [y, x]"
proof -
  have "distinct (ord l)" "set (ord l) = {x, y}" using assms(1,2) by (auto simp: set_order_def)
  then show ?thesis using assms(3) by (rule two_orders)
qed

lemma pair_run:
  assumes so: "set_order ord" and xy: "x \<noteq> y"
  shows "merge_loop ord [[x, y]] = Some (Inr [[x, y]]) \<or> merge_loop ord [[x, y]] = Some (Inr [[y, x]])"
proof -
  have p: "partitioned [[x, y]]" using xy by (simp add: partitioned_def)
  have "merge_loop ord [[x, y]] = Some (Inr [ord [x, y]])"
    using merge_loop_partitioned_input[OF so p] by simp
  moreover have "ord [x, y] = [x, y] \<or> ord [x, y] = [y, x]"
    using set_order_pair[OF so _ xy, of "[x, y]"] by simp
  ultimately show ?thesis by auto
qed

lemma padded_first_run:
  assumes so: "set_order ord"
  shows "merge_loop ord [[''a'', '' x '', ''a'']] = Some (Inr [[''a'', '' x '']]) \<or>
         merge_loop ord [[''a'', '' x '', ''a'']] = Some (Inr [['' x '', ''a'']])"
proof -
  let ?l = "[''a'', '' x '', ''a'']"
  have ne: "''a'' \<noteq> '' x ''" by simp
  have o: "ord ?l = [''a'', '' x ''] \<or> ord ?l = ['' x '', ''a'']"
    using set_order_pair[OF so _ ne, of ?l] by auto
  have step: "merge_loop ord [?l] = merge_loop ord [ord ?l]"
    using o by (subst merge_loop.simps) (auto simp: one_pass_def for_loop.simps loop_body_def Let_def)
  from o show ?thesis
  proof
    assume "ord ?l = [''a'', '' x '']"
    with step pair_run[OF so ne] show ?thesis by auto
  next
    assume "ord ?l = ['' x '', ''a'']"
    with step pair_run[OF so ne[symmetric]] show ?thesis by auto
  qed
qed

text \<open>
  On the line \<open>a, x ,a\<close> no order of set iteration makes the second run write what the
  first run wrote.
\<close>

lemma padded_text_never_rewritten:
  assumes so: "set_order ord" and so': "set_order ord'"
  shows "\<exists>t1 t2. group_synonyms ord ''synonyms.csv'' [''synonyms.csv'' \<mapsto> padded_text] =
                    Some (Inr [''synonyms.csv'' \<mapsto> t1]) \<and>
                  group_synonyms ord' ''synonyms.csv'' [''synonyms.csv'' \<mapsto> t1] =
                    Some (Inr [''synonyms.csv'' \<mapsto> t2]) \<and> t2 \<noteq> t1"
proof -
  have p1: "parse_lines (CHR '','') (readlines padded_text) = [[''a'', '' x '', ''a'']]"
    by (simp add: padded_text_def parse_lines_def strip_def isspace_def lower_def lower_char_def)
  have g: "\<And>ord t out. merge_loop ord (parse_lines (CHR '','') (readlines t)) = Some (Inr out) \<Longrightarrow>
      group_synonyms ord ''synonyms.csv'' [''synonyms.csv'' \<mapsto> t] =
        Some (Inr [''synonyms.csv'' \<mapsto> write_lines (CHR '','') out])"
    by (simp add: group_synonyms_def ex_sep)
  have pa: "parse_lines (CHR '','') (readlines ''a, x \<newline>'') = [[''a'', '' x'']]"
    by (simp add: parse_lines_def strip_def isspace_def lower_def lower_char_def)
  have pb: "parse_lines (CHR '','') (readlines '' x ,a\<newline>'') = [[''x '', ''a'']]"
    by (simp add: parse_lines_def strip_def isspace_def lower_def lower_char_def)
  from padded_first_run[OF so] show ?thesis
  proof
    assume m: "merge_loop ord [[''a'', '' x '', ''a'']] = Some (Inr [[''a'', '' x '']])"
    have g1: "group_synonyms ord ''synonyms.csv'' [''synonyms.csv'' \<mapsto> padded_text] =
        Some (Inr [''synonyms.csv'' \<mapsto> ''a, x \<newline>''])"
      using g[of ord padded_text] m p1 by (simp add: write_lines_def)
    from pair_run[OF so', of "''a''" "'' x''"] have
      "merge_loop ord' (parse_lines (CHR '','') (readlines ''a, x \<newline>'')) = Some (Inr [[''a'', '' x'']]) \<or>
       merge_loop ord' (parse_lines (CHR '','') (readlines ''a, x \<newline>'')) = Some (Inr [['' x'', ''a'']])"
      unfolding pa by simp
    then have "group_synonyms ord' ''synonyms.csv'' [''synonyms.csv'' \<mapsto> ''a, x \<newline>''] =
          Some (Inr [''synonyms.csv'' \<mapsto> ''a, x\<newline>'']) \<or>
        group_synonyms ord' ''synonyms.csv'' [''synonyms.csv'' \<mapsto> ''a, x \<newline>''] =
          Some (Inr [''synonyms.csv'' \<mapsto> '' x,a\<newline>''])"
      using g[of ord' "''a, x \<newline>''"] by (auto simp: write_lines_def)
    with g1 show ?thesis by auto
  next
    assume m: "merge_loop ord [[''a'', '' x '', ''a'']] = Some (Inr [['' x '', ''a'']])"
    have g1: "group_synonyms ord ''synonyms.csv'' [''synonyms.csv'' \<mapsto> padded_text] =
        Some (Inr [''synonyms.csv'' \<mapsto> '' x ,a\<newline>''])"
      using g[of ord padded_text] m p1 by (simp add: write_lines_def)
    from pair_run[OF so', of "''x ''" "''a''"] have
      "merge_loop ord' (parse_lines (CHR '','') (readlines '' x ,a\<newline>'')) = Some (Inr [[''x '', ''a'']]) \<or>
       merge_loop ord' (parse_lines (CHR '','') (readlines '' x ,a\<newline>'')) = Some (Inr [[''a'', ''x '']])"
      unfolding pb by simp
    then have "group_synonyms ord' ''synonyms.csv'' [''synonyms.csv'' \<mapsto> '' x ,a\<newline>''] =
          Some (Inr [''synonyms.csv'' \<mapsto> ''x ,a\<newline>'']) \<or>
        group_synonyms ord' ''synonyms.csv'' [''synonyms.csv'' \<mapsto> '' x ,a\<newline>''] =
          Some (Inr [''synonyms.csv'' \<mapsto> ''a,x \<newline>''])"
      using g[of ord' "'' x ,a\<newline>''"] by (auto simp: write_lines_def)
    with g1 show ?thesis by auto
  qed
qed


subsection \<open>C6: the words of the output\<close>

text \<open>
  C6. Whenever the file can be read and its name has one of the two extensions, the
  words of the lines \<open>group_synonyms\<close> writes are the words of the parsed lines that
  hold two distinct words or more; a word is missing from the output exactly when every
  parsed line that holds it has fewer than two distinct words.
\<close>

theorem group_synonyms_words:
  fixes contents :: string and separator :: char
  defines "ls \<equiv> parse_lines separator (readlines contents)"
  assumes "set_order ord" "files filename = Some contents" "separator_of filename = Some separator"
  shows "\<exists>out. merge_loop ord ls = Some (Inr out) \<and>
           group_synonyms ord filename files =
             Some (Inr (files(filename \<mapsto> write_lines separator out))) \<and>
           \<Union> (set ` set out) = {w. \<exists>l\<in>set ls. w \<in> set l \<and> 2 \<le> card (set l)} \<and>
           (\<forall>w. w \<notin> \<Union> (set ` set out) \<longleftrightarrow> (\<forall>l\<in>set ls. w \<in> set l \<longrightarrow> card (set l) < 2))"
proof -
  from consolidation[OF assms(2), of ls] obtain out where
    r: "merge_loop ord ls = Some (Inr out)" "(edges out)\<^sup>+ = (edges ls)\<^sup>+" "partitioned out"
    by blast
  have g: "group_synonyms ord filename files =
             Some (Inr (files(filename \<mapsto> write_lines separator out)))"
    using group_synonyms_run[of files filename contents separator ord out] assms(3,4) r(1)
    unfolding ls_def by simp
  have 1: "\<Union> (set ` set out) = {w. \<exists>l\<in>set ls. w \<in> set l \<and> 2 \<le> card (set l)}"
    using words_preserved[OF r(3,2)] .
  have 2: "\<forall>w. w \<notin> \<Union> (set ` set out) \<longleftrightarrow> (\<forall>l\<in>set ls. w \<in> set l \<longrightarrow> card (set l) < 2)"
    unfolding 1 by (auto simp: not_le)
  from r(1) g 1 2 show ?thesis by blast
qed

text \<open>
  The file of the lines \<open>lonely\<close>, \<open>big,large\<close>, \<open>solo,solo\<close>: the words written are
  those of the second line.
\<close>

theorem group_synonyms_words_witness:
  "set_order remdups \<and>
   [''synonyms.csv'' \<mapsto> lonely_text] ''synonyms.csv'' = Some lonely_text \<and>
   separator_of ''synonyms.csv'' = Some (CHR '','') \<and>
   group_synonyms remdups ''synonyms.csv'' [''synonyms.csv'' \<mapsto> lonely_text] =
     Some (Inr [''synonyms.csv'' \<mapsto> ''big,large\<newline>'']) \<and>
   {w. \<exists>l\<in>set (parse_lines (CHR '','') (readlines lonely_text)). w \<in> set l \<and> 2 \<le> card (set l)}
     = {''big'', ''large''}"
proof -
  let ?files = "[''synonyms.csv'' \<mapsto> lonely_text]"
  let ?ls = "parse_lines (CHR '','') (readlines lonely_text)"
  have h1: "set_order remdups" by (rule set_order_remdups)
  have h2: "?files ''synonyms.csv'' = Some lonely_text" by simp
  have h3: "separator_of ''synonyms.csv'' = Some (CHR '','')" by (rule ex_sep)
  from group_synonyms_words[of remdups ?files "''synonyms.csv''" lonely_text
      "CHR '',''", OF h1 h2 h3] obtain out where
    o: "merge_loop remdups ?ls = Some (Inr out)"
       "group_synonyms remdups ''synonyms.csv'' ?files =
          Some (Inr (?files(''synonyms.csv'' \<mapsto> write_lines (CHR '','') out)))"
       "\<Union> (set ` set out) = {w. \<exists>l\<in>set ?ls. w \<in> set l \<and> 2 \<le> card (set l)}"
    by blast
  have out: "out = [[''big'', ''large'']]"
    using o(1) by (simp add: lonely_parse lonely_merge)
  have g: "group_synonyms remdups ''synonyms.csv'' ?files =
     Some (Inr [''synonyms.csv'' \<mapsto> ''big,large\<newline>''])"
    using o(2) unfolding out by (simp add: write_lines_def)
  have c: "{w. \<exists>l\<in>set ?ls. w \<in> set l \<and> 2 \<le> card (set l)} = {''big'', ''large''}"
    using o(3)[symmetric] unfolding out by simp
  from h1 h2 h3 g c show ?thesis by blast
qed

subsection \<open>C7: other file extensions\<close>

text \<open>
  C7, as the code has it. When no file of the name exists, the error of \<open>open\<close> is
  raised, whatever the extension. When the file exists and the name ends neither in
  \<open>.csv\<close> nor in \<open>.tsv\<close>, the file is read and the exception for the extension is
  raised, whatever the file holds; the result carries no directory, nothing was
  written. A name ending in \<open>.csv\<close> gives the comma, a name ending in \<open>.tsv\<close> the tab.
\<close>

theorem unsupported_extension_after_reading:
  "(files filename = None \<longrightarrow>
      group_synonyms ord filename files = Some (Inl FileNotFoundError)) \<and>
   (files filename = Some contents \<and> \<not> endswith filename ''.csv'' \<and> \<not> endswith filename ''.tsv'' \<longrightarrow>
      group_synonyms ord filename files = Some (Inl UnsupportedFormatError)) \<and>
   (endswith filename ''.csv'' \<longrightarrow> separator_of filename = Some (CHR '','')) \<and>
   (endswith filename ''.tsv'' \<longrightarrow> separator_of filename = Some (CHR 0x09))"
  using not_both_extensions[of filename]
  by (auto simp: group_synonyms_def separator_of_def)

text \<open>
  A directory that holds \<open>notes.txt\<close> only: the format exception for \<open>notes.txt\<close>, the
  error of \<open>open\<close> for \<open>synonyms.csv\<close>.
\<close>

theorem unsupported_extension_after_reading_witness:
  "notes_files ''notes.txt'' = Some ''big,large\<newline>'' \<and>
   \<not> endswith ''notes.txt'' ''.csv'' \<and> \<not> endswith ''notes.txt'' ''.tsv'' \<and>
   group_synonyms remdups ''notes.txt'' notes_files = Some (Inl UnsupportedFormatError) \<and>
   notes_files ''synonyms.csv'' = None \<and>
   group_synonyms remdups ''synonyms.csv'' notes_files = Some (Inl FileNotFoundError) \<and>
   endswith ''synonyms.csv'' ''.csv'' \<and> separator_of ''synonyms.csv'' = Some (CHR '','') \<and>
   endswith ''synonyms.tsv'' ''.tsv'' \<and> separator_of ''synonyms.tsv'' = Some (CHR 0x09)"
proof -
  have h1: "notes_files ''notes.txt'' = Some ''big,large\<newline>''" by (simp add: notes_files_def)
  have h2: "\<not> endswith ''notes.txt'' ''.csv''" "\<not> endswith ''notes.txt'' ''.tsv''"
    by (simp_all add: endswith_def)
  have h3: "notes_files ''synonyms.csv'' = None" by (simp add: notes_files_def)
  have h4: "endswith ''synonyms.csv'' ''.csv''" "endswith ''synonyms.tsv'' ''.tsv''"
    by (simp_all add: endswith_def)
  from unsupported_extension_after_reading[of notes_files "''notes.txt''" remdups "''big,large\<newline>''"] h1 h2
  have a: "group_synonyms remdups ''notes.txt'' notes_files = Some (Inl UnsupportedFormatError)" by blast
  from unsupported_extension_after_reading[of notes_files "''synonyms.csv''" remdups] h3 h4(1)
  have b: "group_synonyms remdups ''synonyms.csv'' notes_files = Some (Inl FileNotFoundError)"
    "separator_of ''synonyms.csv'' = Some (CHR '','')" by blast+
  from unsupported_extension_after_reading[of notes_files "''synonyms.tsv''" remdups] h4(2)
  have c: "separator_of ''synonyms.tsv'' = Some (CHR 0x09)" by blast
  from h1 h2 h3 h4 a b c show ?thesis by blast
qed

text \<open>
  C7 as stated fails: for a name with another extension that names no file, the
  exception is the one of \<open>open\<close>, raised before the extension is looked at.
\<close>

theorem unsupported_extension_counterexample:
  "\<not> endswith ''notes.txt'' ''.csv'' \<and> \<not> endswith ''notes.txt'' ''.tsv'' \<and>
   group_synonyms remdups ''notes.txt'' Map.empty = Some (Inl FileNotFoundError) \<and>
   group_synonyms remdups ''notes.txt'' Map.empty \<noteq> Some (Inl UnsupportedFormatError)"
  by (simp add: group_synonyms_def endswith_def)

subsection \<open>C8: two runs on the same file\<close>

text \<open>
  C8, as the code has it. Two runs on the same directory and file name, each with its
  own order of set iteration, raise the same exception or none; when they raise none,
  the lists of lines the two merge loops return, which are the lines written, have the
  same length and the same sets of words (the same partition). The order of the words
  in a line and the order of the lines are left open.
\<close>

theorem group_synonyms_same_partition:
  assumes "set_order ord1" "set_order ord2"
  shows "(\<forall>e. group_synonyms ord1 filename files = Some (Inl e) \<longleftrightarrow>
              group_synonyms ord2 filename files = Some (Inl e)) \<and>
         (\<forall>contents separator. files filename = Some contents \<and> separator_of filename = Some separator \<longrightarrow>
            (\<exists>out1 out2.
               merge_loop ord1 (parse_lines separator (readlines contents)) = Some (Inr out1) \<and>
               merge_loop ord2 (parse_lines separator (readlines contents)) = Some (Inr out2) \<and>
               group_synonyms ord1 filename files =
                 Some (Inr (files(filename \<mapsto> write_lines separator out1))) \<and>
               group_synonyms ord2 filename files =
                 Some (Inr (files(filename \<mapsto> write_lines separator out2))) \<and>
               set ` set out1 = set ` set out2 \<and> length out1 = length out2))"
proof -
  note c1 = group_synonyms_cases[OF assms(1), of files filename]
  note c2 = group_synonyms_cases[OF assms(2), of files filename]
  have a: "\<forall>e. group_synonyms ord1 filename files = Some (Inl e) \<longleftrightarrow>
              group_synonyms ord2 filename files = Some (Inl e)"
    using c1 c2 by (elim disjE exE conjE) auto
  have b: "\<exists>out1 out2.
               merge_loop ord1 (parse_lines separator (readlines contents)) = Some (Inr out1) \<and>
               merge_loop ord2 (parse_lines separator (readlines contents)) = Some (Inr out2) \<and>
               group_synonyms ord1 filename files =
                 Some (Inr (files(filename \<mapsto> write_lines separator out1))) \<and>
               group_synonyms ord2 filename files =
                 Some (Inr (files(filename \<mapsto> write_lines separator out2))) \<and>
               set ` set out1 = set ` set out2 \<and> length out1 = length out2"
    if h: "files filename = Some contents" "separator_of filename = Some separator"
    for contents separator
  proof -
    let ?ls = "parse_lines separator (readlines contents)"
    from c1 h obtain out1 where o1: "partitioned out1" "(edges out1)\<^sup>+ = (edges ?ls)\<^sup>+"
      "merge_loop ord1 ?ls = Some (Inr out1)"
      "group_synonyms ord1 filename files = Some (Inr (files(filename \<mapsto> write_lines separator out1)))"
      by auto
    from c2 h obtain out2 where o2: "partitioned out2" "(edges out2)\<^sup>+ = (edges ?ls)\<^sup>+"
      "merge_loop ord2 ?ls = Some (Inr out2)"
      "group_synonyms ord2 filename files = Some (Inr (files(filename \<mapsto> write_lines separator out2)))"
      by auto
    have s: "set ` set out1 = set ` set out2"
      using same_components_subset[OF o1(1,2) o2(1,2)] same_components_subset[OF o2(1,2) o1(1,2)]
      by blast
    have "length out1 = length out2"
      using partitioned_length[OF o1(1)] partitioned_length[OF o2(1)] s by simp
    with o1(3,4) o2(3,4) s show ?thesis by blast
  qed
  from a b show ?thesis by blast
qed

text \<open>
  The file of four lines under two orders of set iteration: the lines come out in
  another order, and as sets of words they are the same.
\<close>

theorem group_synonyms_same_partition_witness:
  "set_order remdups \<and> set_order (\<lambda>xs. rev (remdups xs)) \<and>
   [''synonyms.csv'' \<mapsto> order_text] ''synonyms.csv'' = Some order_text \<and>
   separator_of ''synonyms.csv'' = Some (CHR '','') \<and>
   merge_loop remdups (parse_lines (CHR '','') (readlines order_text)) =
     Some (Inr [[''p'', ''q'', ''r''], [''x'', ''y'']]) \<and>
   merge_loop (\<lambda>xs. rev (remdups xs)) (parse_lines (CHR '','') (readlines order_text)) =
     Some (Inr [[''x'', ''y''], [''r'', ''q'', ''p'']]) \<and>
   set ` set [[''p'', ''q'', ''r''], [''x'', ''y'']] = set ` set [[''x'', ''y''], [''r'', ''q'', ''p'']]"
proof -
  let ?files = "[''synonyms.csv'' \<mapsto> order_text]"
  let ?ls = "parse_lines (CHR '','') (readlines order_text)"
  have h1: "set_order remdups" by (rule set_order_remdups)
  have h2: "set_order (\<lambda>xs. rev (remdups xs))" by (rule set_order_rev_remdups)
  have h3: "?files ''synonyms.csv'' = Some order_text" by simp
  have h4: "separator_of ''synonyms.csv'' = Some (CHR '','')" by (rule ex_sep)
  have p: "?ls = [[''p'', ''p''], [''x'', ''y''], [''q'', ''r''], [''p'', ''q'']]"
    by (simp add: order_text_def parse_lines_def strip_def isspace_def lower_def lower_char_def)
  have m1: "merge_loop remdups ?ls = Some (Inr [[''p'', ''q'', ''r''], [''x'', ''y'']])"
    unfolding p by (simp add: run_simps)
  have m2: "merge_loop (\<lambda>xs. rev (remdups xs)) ?ls = Some (Inr [[''x'', ''y''], [''r'', ''q'', ''p'']])"
    unfolding p by (simp add: run_simps)
  from group_synonyms_same_partition[OF h1 h2, of "''synonyms.csv''" ?files] h3 h4
  obtain out1 out2 where o: "merge_loop remdups ?ls = Some (Inr out1)"
    "merge_loop (\<lambda>xs. rev (remdups xs)) ?ls = Some (Inr out2)"
    "set ` set out1 = set ` set out2" by blast
  have "out1 = [[''p'', ''q'', ''r''], [''x'', ''y'']]" using o(1) m1 by simp
  moreover have "out2 = [[''x'', ''y''], [''r'', ''q'', ''p'']]" using o(2) m2 by simp
  ultimately have s: "set ` set [[''p'', ''q'', ''r''], [''x'', ''y'']] =
      set ` set [[''x'', ''y''], [''r'', ''q'', ''p'']]" using o(3) by simp
  show ?thesis by (intro conjI) (fact h1 h2 h3 h4 m1 m2 s)+
qed

text \<open>
  C8 as stated fails: the same file under two orders of set iteration, both of which a
  set of strings can have, comes out with other lines first and other words first.
\<close>

theorem group_synonyms_order_counterexample:
  "set_order remdups \<and> set_order (\<lambda>xs. rev (remdups xs)) \<and>
   group_synonyms remdups ''synonyms.csv'' [''synonyms.csv'' \<mapsto> order_text] =
     Some (Inr [''synonyms.csv'' \<mapsto> ''p,q,r\<newline>x,y\<newline>'']) \<and>
   group_synonyms (\<lambda>xs. rev (remdups xs)) ''synonyms.csv'' [''synonyms.csv'' \<mapsto> order_text] =
     Some (Inr [''synonyms.csv'' \<mapsto> ''x,y\<newline>r,q,p\<newline>''])"
proof -
  have p: "parse_lines (CHR '','') (readlines order_text) =
      [[''p'', ''p''], [''x'', ''y''], [''q'', ''r''], [''p'', ''q'']]"
    by (simp add: order_text_def parse_lines_def strip_def isspace_def lower_def lower_char_def)
  have m1: "merge_loop remdups [[''p'', ''p''], [''x'', ''y''], [''q'', ''r''], [''p'', ''q'']] =
      Some (Inr [[''p'', ''q'', ''r''], [''x'', ''y'']])"
    by (simp add: run_simps)
  have m2: "merge_loop (\<lambda>xs. rev (remdups xs)) [[''p'', ''p''], [''x'', ''y''], [''q'', ''r''], [''p'', ''q'']] =
      Some (Inr [[''x'', ''y''], [''r'', ''q'', ''p'']])"
    by (simp add: run_simps)
  have g1: "group_synonyms remdups ''synonyms.csv'' [''synonyms.csv'' \<mapsto> order_text] =
     Some (Inr [''synonyms.csv'' \<mapsto> ''p,q,r\<newline>x,y\<newline>''])"
    by (simp add: group_synonyms_def ex_sep p m1 write_lines_def)
  have g2: "group_synonyms (\<lambda>xs. rev (remdups xs)) ''synonyms.csv'' [''synonyms.csv'' \<mapsto> order_text] =
     Some (Inr [''synonyms.csv'' \<mapsto> ''x,y\<newline>r,q,p\<newline>''])"
    by (simp add: group_synonyms_def ex_sep p m2 write_lines_def)
  from set_order_remdups set_order_rev_remdups g1 g2 show ?thesis by blast
qed

subsection \<open>C9: the empty file\<close>

text \<open>
  C9. A file of zero lines whose name has one of the two extensions: \<open>group_synonyms\<close>
  raises nothing and writes a file of zero lines, whatever the order of set iteration.
\<close>

theorem group_synonyms_empty_file:
  assumes "files filename = Some contents" "readlines contents = []"
    "separator_of filename = Some separator"
  shows "\<exists>written. group_synonyms ord filename files = Some (Inr (files(filename \<mapsto> written))) \<and>
           readlines written = []"
proof -
  have "one_pass ord [] = Inr ([], False)" by (simp add: one_pass_def for_loop.simps)
  then have "merge_loop ord [] = Some (Inr [])" by (subst merge_loop.simps) simp
  then have "group_synonyms ord filename files = Some (Inr (files(filename \<mapsto> [])))"
    using assms by (simp add: group_synonyms_def parse_lines_def write_lines_def)
  then show ?thesis by (intro exI[of _ "[]"]) simp
qed

text \<open>The empty file \<open>synonyms.tsv\<close>.\<close>

theorem group_synonyms_empty_file_witness:
  "[''synonyms.tsv'' \<mapsto> ''''] ''synonyms.tsv'' = Some '''' \<and> readlines '''' = [] \<and>
   separator_of ''synonyms.tsv'' = Some (CHR 0x09) \<and>
   group_synonyms remdups ''synonyms.tsv'' [''synonyms.tsv'' \<mapsto> ''''] =
     Some (Inr [''synonyms.tsv'' \<mapsto> ''''])"
proof -
  let ?files = "[''synonyms.tsv'' \<mapsto> '''']"
  have h1: "?files ''synonyms.tsv'' = Some ''''" by simp
  have h2: "readlines '''' = []" by simp
  have h3: "separator_of ''synonyms.tsv'' = Some (CHR 0x09)"
    by (simp add: separator_of_def endswith_def)
  from group_synonyms_empty_file[of ?files "''synonyms.tsv''" "''''" "CHR 0x09" remdups,
      OF h1 h2 h3]
  obtain written where w: "group_synonyms remdups ''synonyms.tsv'' ?files =
      Some (Inr (?files(''synonyms.tsv'' \<mapsto> written)))" "readlines written = []" by blast
  have "written = ''''" using w(2) by (cases written) (auto split: if_splits list.splits)
  with w(1) have "group_synonyms remdups ''synonyms.tsv'' ?files =
     Some (Inr [''synonyms.tsv'' \<mapsto> ''''])" by simp
  with h1 h2 h3 show ?thesis by blast
qed

subsection \<open>C10: comment lines\<close>

text \<open>
  C10. A line that begins with the comment prefix goes through the same steps as any
  other line. It is parsed: its tokens are a line of the parsed list, the first token
  still begins with the prefix, the tokens joined by the separator are the stripped line
  with every capital letter replaced by its small letter (the code point plus 32), no
  token holds the separator and none holds a capital letter from A to Z. It is merged:
  when it holds two distinct tokens or more, all its tokens stand in one line of the
  output, which holds every word once and holds the words of every parsed line that
  shares a token with it. It is discarded like any degenerate line: a token of it stands
  in the output exactly when some parsed line with two distinct words or more holds it,
  so a comment line with fewer than two distinct tokens whose token is in no such line
  leaves nothing in the output.
\<close>

theorem comment_lines_are_consolidated:
  fixes contents :: string and separator :: char and line :: string
  defines "ls \<equiv> parse_lines separator (readlines contents)"
  defines "tokens \<equiv> split separator (lower (strip line))"
  assumes "set_order ord" "files filename = Some contents" "separator_of filename = Some separator"
    and "line \<in> set (readlines contents)" "startswith line COMMENT_CHARS"
  shows "\<exists>out. merge_loop ord ls = Some (Inr out) \<and>
           group_synonyms ord filename files =
             Some (Inr (files(filename \<mapsto> write_lines separator out))) \<and>
           tokens \<in> set ls \<and> startswith (hd tokens) COMMENT_CHARS \<and>
           (\<forall>w\<in>set tokens. separator \<notin> set w \<and>
              (\<forall>c\<in>set w. \<not> (65 \<le> (of_char c :: nat) \<and> (of_char c :: nat) \<le> 90))) \<and>
           length (join separator tokens) = length (strip line) \<and>
           (\<forall>k<length (strip line). (of_char (join separator tokens ! k) :: nat) =
              (if (65 \<le> (of_char (strip line ! k) :: nat) \<and> (of_char (strip line ! k) :: nat) \<le> 90) \<or>
                  (192 \<le> (of_char (strip line ! k) :: nat) \<and> (of_char (strip line ! k) :: nat) \<le> 222 \<and>
                   (of_char (strip line ! k) :: nat) \<noteq> 215)
               then of_char (strip line ! k) + 32 else of_char (strip line ! k))) \<and>
           (2 \<le> card (set tokens) \<longrightarrow>
              (\<exists>l\<in>set out. set tokens \<subseteq> set l \<and> distinct l \<and>
                 (\<forall>other\<in>set ls. set other \<inter> set tokens \<noteq> {} \<longrightarrow> set other \<subseteq> set l))) \<and>
           (\<forall>w\<in>set tokens. w \<in> \<Union> (set ` set out) \<longleftrightarrow> (\<exists>l\<in>set ls. w \<in> set l \<and> 2 \<le> card (set l))) \<and>
           (card (set tokens) < 2 \<and> (\<forall>l\<in>set ls. 2 \<le> card (set l) \<longrightarrow> set tokens \<inter> set l = {}) \<longrightarrow>
              set tokens \<inter> \<Union> (set ` set out) = {})"
proof -
  from consolidation[OF assms(3), of ls] obtain out where
    r: "merge_loop ord ls = Some (Inr out)" "(edges out)\<^sup>+ = (edges ls)\<^sup>+" "partitioned out"
    by blast
  have g: "group_synonyms ord filename files =
             Some (Inr (files(filename \<mapsto> write_lines separator out)))"
    using group_synonyms_run[of files filename contents separator ord out] assms(4,5) r(1)
    unfolding ls_def by simp
  have t: "tokens \<in> set ls" using assms(6) unfolding ls_def tokens_def parse_lines_def by auto
  have "separator \<noteq> CHR ''/''" using separator_of_cases[OF assms(5)] by auto
  then have h: "startswith (hd tokens) COMMENT_CHARS"
    unfolding tokens_def using assms(7) by (intro split_comment lower_comment strip_comment)
  have c: "\<forall>w\<in>set tokens. separator \<notin> set w \<and>
              (\<forall>c\<in>set w. \<not> (65 \<le> (of_char c :: nat) \<and> (of_char c :: nat) \<le> 90))"
  proof (intro ballI conjI)
    fix w assume w: "w \<in> set tokens"
    then show "separator \<notin> set w" unfolding tokens_def by (rule split_no_sep)
    fix c assume "c \<in> set w"
    with split_chars[of w separator "lower (strip line)"] w
    have "c \<in> set (lower (strip line))" unfolding tokens_def by auto
    then show "\<not> (65 \<le> (of_char c :: nat) \<and> (of_char c :: nat) \<le> 90)" by (rule lower_no_capital)
  qed
  have j: "join separator tokens = lower (strip line)" unfolding tokens_def by (rule join_split)
  note lp = lower_positions[of "strip line"]
  have len: "length (join separator tokens) = length (strip line)" unfolding j using lp by blast
  have pos: "\<forall>k<length (strip line). (of_char (join separator tokens ! k) :: nat) =
              (if (65 \<le> (of_char (strip line ! k) :: nat) \<and> (of_char (strip line ! k) :: nat) \<le> 90) \<or>
                  (192 \<le> (of_char (strip line ! k) :: nat) \<and> (of_char (strip line ! k) :: nat) \<le> 222 \<and>
                   (of_char (strip line ! k) :: nat) \<noteq> 215)
               then of_char (strip line ! k) + 32 else of_char (strip line ! k))"
    unfolding j using lp by blast
  have m: "\<exists>l\<in>set out. set tokens \<subseteq> set l \<and> distinct l \<and>
             (\<forall>other\<in>set ls. set other \<inter> set tokens \<noteq> {} \<longrightarrow> set other \<subseteq> set l)"
    if rich: "2 \<le> card (set tokens)"
  proof -
    from all_in_one_line[OF r(3,2) t rich] obtain l where l: "l \<in> set out" "set tokens \<subseteq> set l"
      by auto
    have d: "distinct l" using r(3) l(1) by (simp add: partitioned_def)
    have "\<forall>other\<in>set ls. set other \<inter> set tokens \<noteq> {} \<longrightarrow> set other \<subseteq> set l"
      using merged_with_sharing_lines[OF r(3,2) t l] by blast
    with l d show ?thesis by blast
  qed
  have wp: "\<Union> (set ` set out) = {w. \<exists>l\<in>set ls. w \<in> set l \<and> 2 \<le> card (set l)}"
    using words_preserved[OF r(3,2)] .
  have w: "\<forall>w\<in>set tokens. w \<in> \<Union> (set ` set out) \<longleftrightarrow> (\<exists>l\<in>set ls. w \<in> set l \<and> 2 \<le> card (set l))"
    unfolding wp by simp
  have d: "card (set tokens) < 2 \<and> (\<forall>l\<in>set ls. 2 \<le> card (set l) \<longrightarrow> set tokens \<inter> set l = {}) \<longrightarrow>
              set tokens \<inter> \<Union> (set ` set out) = {}"
  proof (intro impI, elim conjE)
    assume a: "\<forall>l\<in>set ls. 2 \<le> card (set l) \<longrightarrow> set tokens \<inter> set l = {}"
    show "set tokens \<inter> \<Union> (set ` set out) = {}"
    proof (rule ccontr)
      assume "set tokens \<inter> \<Union> (set ` set out) \<noteq> {}"
      then obtain x where x: "x \<in> set tokens" "x \<in> \<Union> (set ` set out)" by blast
      with w obtain l where "l \<in> set ls" "x \<in> set l" "2 \<le> card (set l)" by blast
      with a x(1) show False by blast
    qed
  qed
  from m have m': "2 \<le> card (set tokens) \<longrightarrow>
              (\<exists>l\<in>set out. set tokens \<subseteq> set l \<and> distinct l \<and>
                 (\<forall>other\<in>set ls. set other \<inter> set tokens \<noteq> {} \<longrightarrow> set other \<subseteq> set l))"
    by (rule impI)
  show ?thesis
    by (rule exI[of _ out], intro conjI) (fact r(1) g t h c len pos m' w d)+
qed

text \<open>
  The file of the lines \<open>//Cat,FELINE,//CAT \<close>, \<open>Feline,Animal\<close> and \<open>//ToDo\<close>. The
  first line is stripped, put in small letters, split, rid of its repeated token and
  merged with the second line, which shares \<open>feline\<close> with it; the third line has one
  token and leaves nothing in the output.
\<close>

theorem comment_lines_are_consolidated_witness:
  "set_order remdups \<and>
   [''synonyms.csv'' \<mapsto> comment_text] ''synonyms.csv'' = Some comment_text \<and>
   separator_of ''synonyms.csv'' = Some (CHR '','') \<and>
   ''//Cat,FELINE,//CAT \<newline>'' \<in> set (readlines comment_text) \<and>
   startswith ''//Cat,FELINE,//CAT \<newline>'' COMMENT_CHARS \<and>
   ''//ToDo\<newline>'' \<in> set (readlines comment_text) \<and>
   startswith ''//ToDo\<newline>'' COMMENT_CHARS \<and>
   split (CHR '','') (lower (strip ''//Cat,FELINE,//CAT \<newline>'')) = [''//cat'', ''feline'', ''//cat''] \<and>
   split (CHR '','') (lower (strip ''//ToDo\<newline>'')) = [''//todo''] \<and>
   group_synonyms remdups ''synonyms.csv'' [''synonyms.csv'' \<mapsto> comment_text] =
     Some (Inr [''synonyms.csv'' \<mapsto> ''//cat,feline,animal\<newline>'']) \<and>
   {''//cat'', ''feline''} \<subseteq> set [''//cat'', ''feline'', ''animal''] \<and>
   ''//todo'' \<notin> set [''//cat'', ''feline'', ''animal'']"
proof -
  let ?files = "[''synonyms.csv'' \<mapsto> comment_text]"
  let ?ls = "parse_lines (CHR '','') (readlines comment_text)"
  have p: "?ls = [[''//cat'', ''feline'', ''//cat''], [''feline'', ''animal''], [''//todo'']]"
    by code_simp
  have m: "merge_loop remdups [[''//cat'', ''feline'', ''//cat''], [''feline'', ''animal''], [''//todo'']] =
      Some (Inr [[''//cat'', ''feline'', ''animal'']])"
    by (simp add: run_simps)
  have h1: "set_order remdups" by (rule set_order_remdups)
  have h2: "?files ''synonyms.csv'' = Some comment_text" by simp
  have h3: "separator_of ''synonyms.csv'' = Some (CHR '','')" by (rule ex_sep)
  have h4: "''//Cat,FELINE,//CAT \<newline>'' \<in> set (readlines comment_text)"
    "''//ToDo\<newline>'' \<in> set (readlines comment_text)"
    by (simp_all add: comment_text_def)
  have h5: "startswith ''//Cat,FELINE,//CAT \<newline>'' COMMENT_CHARS"
    "startswith ''//ToDo\<newline>'' COMMENT_CHARS"
    by (simp_all add: startswith_def COMMENT_CHARS_def)
  have t1: "split (CHR '','') (lower (strip ''//Cat,FELINE,//CAT \<newline>'')) = [''//cat'', ''feline'', ''//cat'']"
    by code_simp
  have t2: "split (CHR '','') (lower (strip ''//ToDo\<newline>'')) = [''//todo'']"
    by code_simp
  have r: "merge_loop remdups ?ls = Some (Inr [[''//cat'', ''feline'', ''animal'']])"
    unfolding p by (rule m)
  note c1 = pin_result[OF comment_lines_are_consolidated[of remdups ?files "''synonyms.csv''"
      comment_text "CHR '',''" "''//Cat,FELINE,//CAT \<newline>''", OF h1 h2 h3 h4(1) h5(1)] r]
  note c2 = pin_result[OF comment_lines_are_consolidated[of remdups ?files "''synonyms.csv''"
      comment_text "CHR '',''" "''//ToDo\<newline>''", OF h1 h2 h3 h4(2) h5(2)] r]
  have g: "group_synonyms remdups ''synonyms.csv'' ?files =
     Some (Inr [''synonyms.csv'' \<mapsto> ''//cat,feline,animal\<newline>''])"
    using c1[THEN conjunct1] by (simp add: write_lines_def)
  note merged = c1[THEN conjunct2, THEN conjunct2, THEN conjunct2, THEN conjunct2,
      THEN conjunct2, THEN conjunct2, THEN conjunct1, unfolded t1]
  have a: "{''//cat'', ''feline''} \<subseteq> set [''//cat'', ''feline'', ''animal'']"
    using merged by simp
  note discarded = c2[THEN conjunct2, THEN conjunct2, THEN conjunct2, THEN conjunct2,
      THEN conjunct2, THEN conjunct2, THEN conjunct2, THEN conjunct2, unfolded t2 p]
  have b: "''//todo'' \<notin> set [''//cat'', ''feline'', ''animal'']"
    using discarded by simp
  show ?thesis
    by (intro conjI) (fact h1 h2 h3 h4 h5 t1 t2 g a b)+
qed


end
